theory Spec2Isabelle
  imports Main "HOL-Library.AList" "HOL-Library.Multiset"
begin

section \<open>Data model\<close>

text \<open>
  A shallow embedding of \<^verbatim>\<open>src/mail_forwarder.py\<close> (class \<^verbatim>\<open>MailForwarder\<close>):
  the ledger table \<^verbatim>\<open>retrieved_mails\<close>, the retention sweep \<^verbatim>\<open>_delete_old_mails\<close>,
  the poll \<^verbatim>\<open>_fetch_new_mails\<close>, the relay \<^verbatim>\<open>_forward_mail\<close>, and the two drivers
  \<^verbatim>\<open>process_once\<close> and \<^verbatim>\<open>process_daemon\<close>.

  The POP3 server, the SMTP relay and the local clock are the environment: every call
  that can raise has a field saying whether it does. Each function returns the ledger it
  leaves behind together with the list of external calls it made, in the order made.
\<close>

type_synonym uidl = string
type_synonym bytes = string

text \<open>
  Python's \<^verbatim>\<open>datetime\<close>: naive (wall clock only) or aware (wall clock and UTC offset),
  both in microseconds, counted from 1970-01-01 00:00:00. An order comparison between a
  naive and an aware value raises \<^verbatim>\<open>TypeError\<close>; two aware values compare as instants.
\<close>

datatype datetime = Naive int | Aware int int

datatype error = TypeError | ValueError | KeyError | OverflowError | ProgrammingError

fun dt_lt :: "datetime \<Rightarrow> datetime \<Rightarrow> error + bool" where
  "dt_lt (Naive a) (Naive b) = Inr (a < b)"
| "dt_lt (Aware a oa) (Aware b ob) = Inr (a - oa < b - ob)"
| "dt_lt (Naive a) (Aware b ob) = Inl TypeError"
| "dt_lt (Aware a oa) (Naive b) = Inl TypeError"

text \<open>
  The range of \<^verbatim>\<open>datetime\<close>: from \<^verbatim>\<open>datetime.min\<close> (0001-01-01 00:00:00, which is
  719162 days before 1970) to \<^verbatim>\<open>datetime.max\<close> (9999-12-31 23:59:59.999999).
\<close>

definition datetime_min :: int where
  "datetime_min = - 62135596800000000"

definition datetime_max :: int where
  "datetime_max = 253402300799999999"

text \<open>
  \<^verbatim>\<open>timedelta(days=d)\<close> raises \<^verbatim>\<open>OverflowError\<close> when the magnitude of \<open>d\<close> exceeds
  999999999, and \<^verbatim>\<open>datetime - timedelta\<close> raises it when the result leaves the range.
\<close>

definition timedelta_days :: "int \<Rightarrow> error + int" where
  "timedelta_days d = (if abs d \<le> 999999999 then Inr (d * 86400000000) else Inl OverflowError)"

definition datetime_sub :: "int \<Rightarrow> int \<Rightarrow> error + int" where
  "datetime_sub t delta =
     (if datetime_min \<le> t - delta \<and> t - delta \<le> datetime_max then Inr (t - delta)
      else Inl OverflowError)"

text \<open>
  The value of \<^verbatim>\<open>msg.get('Subject', default)\<close>: a \<^verbatim>\<open>str\<close>, or, when the header holds
  raw 8-bit bytes, an \<^verbatim>\<open>email.header.Header\<close> object. (For the From header
  \<^verbatim>\<open>parseaddr\<close> makes a \<^verbatim>\<open>str\<close> of either.)
\<close>

datatype subject_value = SubjectStr string | SubjectHeader

text \<open>
  One row of \<^verbatim>\<open>retrieved_mails\<close> without its key. The table has
  \<^verbatim>\<open>uidl TEXT PRIMARY KEY\<close>; it is a list of keyed rows in insertion order.
  \<^verbatim>\<open>forwarded_at\<close> is the local clock at write time, in microseconds.
\<close>

record row =
  forwarded_at :: int
  from_addr :: string
  subject :: string
  forward_success :: bool

type_synonym ledger = "(uidl \<times> row) list"

text \<open>
  What \<^verbatim>\<open>message_from_bytes\<close>, \<^verbatim>\<open>parseaddr\<close> and \<^verbatim>\<open>parsedate_to_datetime\<close> make of a
  retrieved message: the raw bytes, the address of the From header, the Subject header
  when there is one, and the Date header: missing (or empty), present but rejected by
  \<^verbatim>\<open>parsedate_to_datetime\<close> (it raises), or parsed.
\<close>

datatype date_header = DateMissing | DateUnparsable | DateParsed datetime

record message =
  mail_data :: bytes
  hdr_from :: string
  hdr_subject :: "subject_value option"
  hdr_date :: date_header

text \<open>
  One POP3 session as the server plays it: whether \<^verbatim>\<open>create_pop3_connection\<close> returns,
  whether \<^verbatim>\<open>user\<close>/\<^verbatim>\<open>pass_\<close> are accepted, the lines of the \<^verbatim>\<open>UIDL\<close> response as
  (message number, identifier) pairs (\<open>None\<close>: the call raises, or a line does not split
  into a number and an identifier), and the outcome of \<^verbatim>\<open>retr\<close>, \<^verbatim>\<open>dele\<close> and \<^verbatim>\<open>quit\<close>.
\<close>

record pop3 =
  connect_ok :: bool
  auth_ok :: bool
  uidl_list :: "(nat \<times> uidl) list option"
  retr :: "nat \<Rightarrow> message option"
  dele_ok :: "nat \<Rightarrow> bool"
  quit_ok :: bool

record relay =
  pbs_ok :: bool
  smtp_connect_ok :: bool
  starttls_ok :: bool
  login_ok :: bool
  sendmail_ok :: "bytes \<Rightarrow> bool"
  smtp_quit_ok :: bool

text \<open>
  The configuration the core reads, and \<^verbatim>\<open>self.start_date\<close>. \<^verbatim>\<open>mail_retention_days\<close>
  is \<open>None\<close> when the key is absent from the file.
\<close>

record config =
  mail_retention_days :: "int option"
  start_date :: "datetime option"
  pop_before_smtp :: bool
  smtp_port :: nat
  use_tls :: bool

text \<open>
  The world of one cycle: the clock \<^verbatim>\<open>datetime.now()\<close>, the POP3 session the sweep
  opens, the one the poll opens, the relay, and the order in which Python iterates
  over the set \<^verbatim>\<open>new_uidls\<close> (unspecified by the language, so a parameter).
\<close>

record env =
  now :: int
  sweep_pop :: pop3
  fetch_pop :: pop3
  smtp :: relay
  set_order :: "uidl list \<Rightarrow> uidl list"

definition iterates_sets :: "(uidl list \<Rightarrow> uidl list) \<Rightarrow> bool" where
  "iterates_sets f \<longleftrightarrow> (\<forall>xs. mset (f xs) = mset xs)"

text \<open>
  Lines 692 to 714 of \<^verbatim>\<open>_fetch_new_mails\<close> do not parse as they stand: under the
  \<^verbatim>\<open>if self.start_date and mail_date:\<close> of line 692 (indentation 16) the comparison
  \<^verbatim>\<open>if mail_date < self.start_date:\<close> sits at indentation 28, and it is followed by
  an \<^verbatim>\<open>else:\<close> at 24 and an \<^verbatim>\<open>except Exception\<close> at 20 that match no open block; each
  of the two only logs a warning ("no Date header, forwarding", "date error, forwarding").
  The model carries both ways of reading the block:

    \<^item> \<open>Statements_only\<close>: lines 705 to 714 are left out; an exception of the comparison or
      of the ledger write reaches the \<^verbatim>\<open>except\<close> of the whole poll.

    \<^item> \<open>Guarded\<close>: the comparison and the ledger write stand inside the \<^verbatim>\<open>try\<close> to which
      the \<^verbatim>\<open>except Exception\<close> of line 710 belongs; an exception there is logged and the
      loop goes on with \<^verbatim>\<open>should_forward\<close> as it was.

  With no start date, or with a message that has no usable date, the two coincide.
\<close>

datatype reading = Statements_only | Guarded

text \<open>
  The external calls, in the order made. \<open>PopRetr u n\<close> and \<open>PopDele u n\<close> are
  \<^verbatim>\<open>pop_conn.retr(n)\<close> and \<^verbatim>\<open>pop_conn.dele(n)\<close> issued in the iteration for identifier
  \<open>u\<close>; \<open>Forward u ok\<close> is the call of \<^verbatim>\<open>_forward_mail\<close> in the iteration for \<open>u\<close>
  with its result; \<open>Save u ok\<close> is a call \<^verbatim>\<open>_save_retrieved_mail(u, _, _, ok)\<close> that
  returned and \<open>SaveRaised u ok\<close> one that raised. The three error events are the
  \<^verbatim>\<open>logger.error\<close> calls of the three \<^verbatim>\<open>except\<close> branches.
\<close>

datatype event =
    PopConnect
  | PopRetr uidl nat
  | PopDele uidl nat
  | PopQuit
  | Forward uidl bool
  | Save uidl bool
  | SaveRaised uidl bool
  | SweepError
  | FetchError
  | CycleError

fun ev_uidl :: "event \<Rightarrow> uidl option" where
  "ev_uidl (PopRetr u n) = Some u"
| "ev_uidl (PopDele u n) = Some u"
| "ev_uidl (Forward u ok) = Some u"
| "ev_uidl (Save u ok) = Some u"
| "ev_uidl (SaveRaised u ok) = Some u"
| "ev_uidl e = None"

text \<open>
  The tuples \<^verbatim>\<open>_fetch_new_mails\<close> returns and the drivers unpack. Python checks the
  arity when a \<^verbatim>\<open>for\<close> target unpacks a tuple and raises \<^verbatim>\<open>ValueError\<close> on a mismatch.
\<close>

datatype mail_tuple =
    Tuple4 uidl bytes string subject_value
  | Tuple5 uidl bytes string subject_value "datetime option"

fun tuple_uidl :: "mail_tuple \<Rightarrow> uidl" where
  "tuple_uidl (Tuple4 u d f s) = u"
| "tuple_uidl (Tuple5 u d f s m) = u"

fun unpack4 :: "mail_tuple \<Rightarrow> error + (uidl \<times> bytes \<times> string \<times> subject_value)" where
  "unpack4 (Tuple4 u d f s) = Inr (u, d, f, s)"
| "unpack4 (Tuple5 u d f s m) = Inl ValueError"

fun unpack5 :: "mail_tuple \<Rightarrow> error + (uidl \<times> bytes \<times> string \<times> subject_value \<times> datetime option)" where
  "unpack5 (Tuple5 u d f s m) = Inr (u, d, f, s, m)"
| "unpack5 (Tuple4 u d f s) = Inl ValueError"

fun arity :: "mail_tuple \<Rightarrow> nat" where
  "arity (Tuple4 u d f s) = 4"
| "arity (Tuple5 u d f s m) = 5"

text \<open>What a run did about one identifier: its calls, its tuples, its rows.\<close>

definition evs_of :: "uidl \<Rightarrow> event list \<Rightarrow> event list" where
  "evs_of u evs = filter (\<lambda>e. ev_uidl e = Some u) evs"

definition tuples_of :: "uidl \<Rightarrow> mail_tuple list \<Rightarrow> mail_tuple list" where
  "tuples_of u xs = filter (\<lambda>x. tuple_uidl x = u) xs"

definition rows_of :: "uidl \<Rightarrow> ledger \<Rightarrow> ledger" where
  "rows_of u db = filter (\<lambda>kr. fst kr = u) db"

text \<open>The identifiers for which a run called \<^verbatim>\<open>retr\<close>, in the order of the calls.\<close>

fun retrieved :: "event list \<Rightarrow> uidl list" where
  "retrieved [] = []"
| "retrieved (PopRetr u n # es) = u # retrieved es"
| "retrieved (e # es) = retrieved es"

section \<open>The ledger\<close>

text \<open>\<^verbatim>\<open>_get_retrieved_uidls\<close>: \<^verbatim>\<open>SELECT uidl FROM retrieved_mails\<close>, as a set.\<close>

definition get_retrieved_uidls :: "ledger \<Rightarrow> uidl set" where
  "get_retrieved_uidls db = fst ` set db"

text \<open>
  \<^verbatim>\<open>_save_retrieved_mail\<close>: \<^verbatim>\<open>INSERT OR REPLACE\<close> removes the row with the same key, if
  any, and inserts the new one, stamped with the clock. sqlite3 cannot bind an
  \<^verbatim>\<open>email.header.Header\<close> to a parameter: with such a subject \<^verbatim>\<open>cursor.execute\<close> raises
  \<^verbatim>\<open>ProgrammingError\<close> and nothing is written.
\<close>

definition save_retrieved_mail :: "int \<Rightarrow> uidl \<Rightarrow> string \<Rightarrow> subject_value \<Rightarrow> bool \<Rightarrow> ledger
    \<Rightarrow> error + ledger" where
  "save_retrieved_mail t u f sj ok db =
     (case sj of
        SubjectHeader \<Rightarrow> Inl ProgrammingError
      | SubjectStr s \<Rightarrow>
          Inr (filter (\<lambda>kr. fst kr \<noteq> u) db
                 @ [(u, \<lparr>forwarded_at = t, from_addr = f, subject = s, forward_success = ok\<rparr>)]))"

text \<open>\<^verbatim>\<open>DELETE FROM retrieved_mails WHERE uidl = ?\<close>.\<close>

definition delete_row :: "uidl \<Rightarrow> ledger \<Rightarrow> ledger" where
  "delete_row u db = filter (\<lambda>kr. fst kr \<noteq> u) db"

section \<open>The UIDL listing\<close>

text \<open>
  The dictionary \<^verbatim>\<open>server_uidls\<close> built from the response lines:
  \<^verbatim>\<open>server_uidls[uidl] = msg_num\<close>, a later line replacing the number of an earlier one
  with the same identifier.
\<close>

fun server_uidls :: "(nat \<times> uidl) list \<Rightarrow> (uidl \<times> nat) list \<Rightarrow> (uidl \<times> nat) list" where
  "server_uidls [] d = d"
| "server_uidls ((msg_num, u) # items) d = server_uidls items (AList.update u msg_num d)"

section \<open>The retention sweep\<close>

text \<open>
  The \<^verbatim>\<open>SELECT\<close> of \<^verbatim>\<open>_delete_old_mails\<close>:
  \<^verbatim>\<open>WHERE forward_success = 1 AND forwarded_at < cutoff_date\<close>.
\<close>

definition mails_to_delete :: "int \<Rightarrow> ledger \<Rightarrow> ledger" where
  "mails_to_delete cutoff_date db =
     filter (\<lambda>kr. forward_success (snd kr) \<and> forwarded_at (snd kr) < cutoff_date) db"

text \<open>
  The deletion loop. The \<^verbatim>\<open>DELETE\<close> statements run on the open connection and are
  committed after the loop; the first component is \<open>None\<close> when a \<^verbatim>\<open>dele\<close> raised, and
  then nothing is committed.
\<close>

fun dele_loop :: "pop3 \<Rightarrow> (uidl \<times> nat) list \<Rightarrow> ledger \<Rightarrow> ledger \<Rightarrow> event list
    \<Rightarrow> ledger option \<times> event list" where
  "dele_loop p srv [] pend evs = (Some pend, evs)"
| "dele_loop p srv ((u, r) # rest) pend evs =
     (case map_of srv u of
        Some msg_num \<Rightarrow>
          if dele_ok p msg_num
          then dele_loop p srv rest (delete_row u pend) (evs @ [PopDele u msg_num])
          else (None, evs @ [PopDele u msg_num])
      | None \<Rightarrow> dele_loop p srv rest (delete_row u pend) evs)"

text \<open>The \<^verbatim>\<open>try\<close> block of \<^verbatim>\<open>_delete_old_mails\<close> with its \<^verbatim>\<open>except\<close> and \<^verbatim>\<open>finally\<close>.\<close>

definition sweep_session :: "pop3 \<Rightarrow> ledger \<Rightarrow> ledger \<Rightarrow> ledger \<times> event list" where
  "sweep_session p sel db =
     (if \<not> connect_ok p then (db, [PopConnect, SweepError])
      else if \<not> auth_ok p then (db, [PopConnect, SweepError])
      else
        (case uidl_list p of
           None \<Rightarrow> (db, [PopConnect, SweepError])
         | Some items \<Rightarrow>
             (case dele_loop p (server_uidls items []) sel db [PopConnect] of
                (None, evs) \<Rightarrow> (db, evs @ [SweepError])
              | (Some db', evs) \<Rightarrow>
                  if quit_ok p then (db', evs @ [PopQuit])
                  else (db', evs @ [PopQuit, SweepError]))))"

text \<open>\<^verbatim>\<open>self.config.get('mail_retention_days', 30)\<close>.\<close>

definition retention_days :: "config \<Rightarrow> int" where
  "retention_days cfg = (case mail_retention_days cfg of None \<Rightarrow> 30 | Some d \<Rightarrow> d)"

text \<open>
  \<^verbatim>\<open>cutoff_date = datetime.now() - timedelta(days=retention_days)\<close> (line 557). It stands
  before the \<^verbatim>\<open>try\<close>: an \<^verbatim>\<open>OverflowError\<close> leaves \<^verbatim>\<open>_delete_old_mails\<close>.
\<close>

definition cutoff_date_of :: "int \<Rightarrow> int \<Rightarrow> error + int" where
  "cutoff_date_of t d =
     (case timedelta_days d of Inl e \<Rightarrow> Inl e | Inr delta \<Rightarrow> datetime_sub t delta)"

text \<open>
  \<^verbatim>\<open>_delete_old_mails\<close>. The first component of the result is the exception that left
  the function, if one did.
\<close>

definition delete_old_mails :: "config \<Rightarrow> env \<Rightarrow> ledger \<Rightarrow> error option \<times> ledger \<times> event list" where
  "delete_old_mails cfg w db =
     (if retention_days cfg = 0 then (None, db, [])
      else
        (case cutoff_date_of (now w) (retention_days cfg) of
           Inl e \<Rightarrow> (Some e, db, [])
         | Inr cutoff_date \<Rightarrow>
             let sel = mails_to_delete cutoff_date db
             in if sel = [] then (None, db, [])
                else (case sweep_session (sweep_pop w) sel db of
                        (db', evs) \<Rightarrow> (None, db', evs))))"

section \<open>The poll\<close>

text \<open>
  The default subject stands for the source's literal (a Japanese phrase meaning
  "no subject").
\<close>

definition no_subject :: string where
  "no_subject = ''(no subject)''"

text \<open>\<^verbatim>\<open>msg.get('Subject', default)\<close>.\<close>

definition subject_of :: "message \<Rightarrow> subject_value" where
  "subject_of m = (case hdr_subject m of None \<Rightarrow> SubjectStr no_subject | Some s \<Rightarrow> s)"

text \<open>
  Lines 681 to 688: the try around \<^verbatim>\<open>parsedate_to_datetime\<close> turns a date that does not
  parse into \<^verbatim>\<open>mail_date = None\<close>.
\<close>

definition mail_date_of :: "message \<Rightarrow> datetime option" where
  "mail_date_of m = (case hdr_date m of DateParsed d \<Rightarrow> Some d | _ \<Rightarrow> None)"

text \<open>
  Lines 690 to 714, the start-date filter of one iteration, under either reading. The
  result is the exception that leaves the block (if one does), \<^verbatim>\<open>should_forward\<close>, the
  ledger, and the ledger calls made.
\<close>

definition start_date_filter :: "reading \<Rightarrow> datetime option \<Rightarrow> int \<Rightarrow> uidl \<Rightarrow> string
    \<Rightarrow> subject_value \<Rightarrow> datetime option \<Rightarrow> ledger
    \<Rightarrow> error option \<times> bool \<times> ledger \<times> event list" where
  "start_date_filter rd sd t u fa sj mail_date db =
     (case sd of
        None \<Rightarrow> (None, True, db, [])
      | Some c \<Rightarrow>
          (case mail_date of
             None \<Rightarrow> (None, True, db, [])
           | Some d \<Rightarrow>
               (case dt_lt d c of
                  Inl e \<Rightarrow>
                    (case rd of
                       Statements_only \<Rightarrow> (Some e, True, db, [])
                     | Guarded \<Rightarrow> (None, True, db, []))
                | Inr False \<Rightarrow> (None, True, db, [])
                | Inr True \<Rightarrow>
                    (case save_retrieved_mail t u fa sj False db of
                       Inr db' \<Rightarrow> (None, False, db', [Save u False])
                     | Inl e \<Rightarrow>
                         (case rd of
                            Statements_only \<Rightarrow> (Some e, False, db, [SaveRaised u False])
                          | Guarded \<Rightarrow> (None, False, db, [SaveRaised u False]))))))"

text \<open>
  One iteration of the \<^verbatim>\<open>for uidl in new_uidls\<close> loop of \<^verbatim>\<open>_fetch_new_mails\<close>. The
  accumulator is \<^verbatim>\<open>new_mails\<close>, the ledger, and the calls so far. The first component of
  the result says whether the iteration raised.
\<close>

definition fetch_step :: "reading \<Rightarrow> datetime option \<Rightarrow> int \<Rightarrow> pop3 \<Rightarrow> (uidl \<times> nat) list \<Rightarrow> uidl
    \<Rightarrow> mail_tuple list \<times> ledger \<times> event list
    \<Rightarrow> bool \<times> mail_tuple list \<times> ledger \<times> event list" where
  "fetch_step rd sd t p srv u acc =
     (case acc of (new_mails, db, evs) \<Rightarrow>
      (case map_of srv u of
         None \<Rightarrow> (True, new_mails, db, evs)
       | Some msg_num \<Rightarrow>
           (case retr p msg_num of
              None \<Rightarrow> (True, new_mails, db, evs @ [PopRetr u msg_num])
            | Some m \<Rightarrow>
                (case start_date_filter rd sd t u (hdr_from m) (subject_of m) (mail_date_of m) db of
                   (Some e, should_forward, db', es) \<Rightarrow>
                     (True, new_mails, db', evs @ [PopRetr u msg_num] @ es)
                 | (None, should_forward, db', es) \<Rightarrow>
                     if should_forward
                     then (False, new_mails @ [Tuple4 u (mail_data m) (hdr_from m) (subject_of m)],
                           db', evs @ [PopRetr u msg_num] @ es)
                     else (False, new_mails, db', evs @ [PopRetr u msg_num] @ es)))))"

fun fetch_loop :: "reading \<Rightarrow> datetime option \<Rightarrow> int \<Rightarrow> pop3 \<Rightarrow> (uidl \<times> nat) list \<Rightarrow> uidl list
    \<Rightarrow> mail_tuple list \<times> ledger \<times> event list
    \<Rightarrow> bool \<times> mail_tuple list \<times> ledger \<times> event list" where
  "fetch_loop rd sd t p srv [] acc = (False, acc)"
| "fetch_loop rd sd t p srv (u # us) acc =
     (case fetch_step rd sd t p srv u acc of
        (True, acc') \<Rightarrow> (True, acc')
      | (False, acc') \<Rightarrow> fetch_loop rd sd t p srv us acc')"

text \<open>\<^verbatim>\<open>new_uidls = set(server_uidls.keys()) - retrieved_uidls\<close>, in iteration order.\<close>

definition new_uidls :: "env \<Rightarrow> (uidl \<times> nat) list \<Rightarrow> ledger \<Rightarrow> uidl list" where
  "new_uidls w srv db =
     set_order w (filter (\<lambda>u. u \<notin> get_retrieved_uidls db) (map fst srv))"

text \<open>
  \<^verbatim>\<open>_fetch_new_mails\<close>. Any exception inside the \<^verbatim>\<open>try\<close> is logged and the list built so
  far is returned; rows already written by \<^verbatim>\<open>_save_retrieved_mail\<close> stay (each call
  commits on its own).
\<close>

definition fetch_new_mails :: "reading \<Rightarrow> config \<Rightarrow> env \<Rightarrow> ledger
    \<Rightarrow> mail_tuple list \<times> ledger \<times> event list" where
  "fetch_new_mails rd cfg w db =
     (let p = fetch_pop w in
      if \<not> connect_ok p then ([], db, [PopConnect, FetchError])
      else if \<not> auth_ok p then ([], db, [PopConnect, FetchError])
      else
        (case uidl_list p of
           None \<Rightarrow> ([], db, [PopConnect, FetchError])
         | Some items \<Rightarrow>
             let srv = server_uidls items [] in
             (case fetch_loop rd (start_date cfg) (now w) p srv (new_uidls w srv db)
                     ([], db, [PopConnect]) of
                (True, new_mails, db', evs) \<Rightarrow> (new_mails, db', evs @ [FetchError])
              | (False, new_mails, db', evs) \<Rightarrow>
                  if quit_ok p then (new_mails, db', evs @ [PopQuit])
                  else (new_mails, db', evs @ [PopQuit, FetchError]))))"

section \<open>The relay\<close>

text \<open>
  \<^verbatim>\<open>_forward_mail\<close>: \<^verbatim>\<open>True\<close> when every step up to \<^verbatim>\<open>smtp_conn.quit()\<close> returns,
  \<^verbatim>\<open>False\<close> when one raises.
\<close>

definition forward_mail :: "config \<Rightarrow> relay \<Rightarrow> bytes \<Rightarrow> bool" where
  "forward_mail cfg r data =
     (if pop_before_smtp cfg \<and> \<not> pbs_ok r then False
      else if \<not> smtp_connect_ok r then False
      else if smtp_port cfg \<noteq> 465 \<and> use_tls cfg \<and> \<not> starttls_ok r then False
      else if \<not> login_ok r then False
      else if \<not> sendmail_ok r data then False
      else if \<not> smtp_quit_ok r then False
      else True)"

section \<open>The drivers\<close>

text \<open>
  The relay loop of \<^verbatim>\<open>process_once\<close>: the target list of its \<^verbatim>\<open>for\<close> has five names.
  The accumulator is the ledger, the calls so far, \<^verbatim>\<open>forwarded_count\<close> and
  \<^verbatim>\<open>failed_count\<close>; the first component of the result is the exception that ended the
  loop, if one did.
\<close>

fun once_loop :: "config \<Rightarrow> env \<Rightarrow> mail_tuple list \<Rightarrow> ledger \<times> event list \<times> nat \<times> nat
    \<Rightarrow> error option \<times> ledger \<times> event list \<times> nat \<times> nat" where
  "once_loop cfg w [] acc = (None, acc)"
| "once_loop cfg w (x # xs) (db, evs, forwarded_count, failed_count) =
     (case unpack5 x of
        Inl e \<Rightarrow> (Some e, db, evs, forwarded_count, failed_count)
      | Inr (u, data, fa, sj, mail_date) \<Rightarrow>
          let success = forward_mail cfg (smtp w) data
          in (case save_retrieved_mail (now w) u fa sj success db of
                Inl e \<Rightarrow>
                  (Some e, db, evs @ [Forward u success, SaveRaised u success],
                   forwarded_count, failed_count)
              | Inr db' \<Rightarrow>
                  if success
                  then once_loop cfg w xs
                         (db', evs @ [Forward u success, Save u success],
                          forwarded_count + 1, failed_count)
                  else once_loop cfg w xs
                         (db', evs @ [Forward u success, Save u success],
                          forwarded_count, failed_count + 1)))"

text \<open>The counts \<^verbatim>\<open>process_once\<close> reports in its summary.\<close>

record summary =
  new_count :: nat
  relayed_count :: nat
  failed_relays :: nat

text \<open>
  \<^verbatim>\<open>process_once\<close>: the sweep, then the poll, the relay loop and the summary (the last
  three are \<open>reconcile_once\<close>). It has no \<^verbatim>\<open>try\<close>: an exception of the sweep or of the
  loop leaves the function, and no summary is reported.
\<close>

definition reconcile_once :: "reading \<Rightarrow> config \<Rightarrow> env \<Rightarrow> ledger
    \<Rightarrow> ledger \<times> event list \<times> (error + summary)" where
  "reconcile_once rd cfg w db =
     (case fetch_new_mails rd cfg w db of (new_mails, db2, evs2) \<Rightarrow>
      (case once_loop cfg w new_mails (db2, evs2, 0, 0) of
         (Some e, db3, evs3, fc, lc) \<Rightarrow> (db3, evs3, Inl e)
       | (None, db3, evs3, fc, lc) \<Rightarrow>
           (db3, evs3,
            Inr \<lparr>new_count = length new_mails, relayed_count = fc, failed_relays = lc\<rparr>)))"

definition process_once :: "reading \<Rightarrow> config \<Rightarrow> env \<Rightarrow> ledger
    \<Rightarrow> ledger \<times> event list \<times> (error + summary)" where
  "process_once rd cfg w db =
     (case delete_old_mails cfg w db of
        (Some e, db1, evs1) \<Rightarrow> (db1, evs1, Inl e)
      | (None, db1, evs1) \<Rightarrow>
          (case reconcile_once rd cfg w db1 of (db3, evs3, r) \<Rightarrow> (db3, evs1 @ evs3, r)))"

text \<open>The relay loop of \<^verbatim>\<open>process_daemon\<close>: the target list has four names.\<close>

fun daemon_loop :: "config \<Rightarrow> env \<Rightarrow> mail_tuple list \<Rightarrow> ledger \<times> event list
    \<Rightarrow> error option \<times> ledger \<times> event list" where
  "daemon_loop cfg w [] acc = (None, acc)"
| "daemon_loop cfg w (x # xs) (db, evs) =
     (case unpack4 x of
        Inl e \<Rightarrow> (Some e, db, evs)
      | Inr (u, data, fa, sj) \<Rightarrow>
          let success = forward_mail cfg (smtp w) data
          in (case save_retrieved_mail (now w) u fa sj success db of
                Inl e \<Rightarrow> (Some e, db, evs @ [Forward u success, SaveRaised u success])
              | Inr db' \<Rightarrow>
                  daemon_loop cfg w xs (db', evs @ [Forward u success, Save u success])))"

text \<open>
  The reconciliation of one daemon cycle (the poll and the relay loop), and the whole
  body of the \<^verbatim>\<open>while self.running\<close> loop of \<^verbatim>\<open>process_daemon\<close> up to the sleep: an
  exception is caught at the cycle boundary and logged.
\<close>

definition reconcile_daemon :: "reading \<Rightarrow> config \<Rightarrow> env \<Rightarrow> ledger \<Rightarrow> ledger \<times> event list" where
  "reconcile_daemon rd cfg w db =
     (case fetch_new_mails rd cfg w db of (new_mails, db2, evs2) \<Rightarrow>
      (case daemon_loop cfg w new_mails (db2, evs2) of
         (Some e, db3, evs3) \<Rightarrow> (db3, evs3 @ [CycleError])
       | (None, db3, evs3) \<Rightarrow> (db3, evs3)))"

definition daemon_cycle :: "reading \<Rightarrow> config \<Rightarrow> env \<Rightarrow> ledger \<Rightarrow> ledger \<times> event list" where
  "daemon_cycle rd cfg w db =
     (case delete_old_mails cfg w db of
        (Some e, db1, evs1) \<Rightarrow> (db1, evs1 @ [CycleError])
      | (None, db1, evs1) \<Rightarrow>
          (case reconcile_daemon rd cfg w db1 of (db3, evs3) \<Rightarrow> (db3, evs1 @ evs3)))"

text \<open>
  \<^verbatim>\<open>process_daemon\<close> over a finite run: one world per cycle, the ledger carried from
  cycle to cycle.
\<close>

fun process_daemon :: "reading \<Rightarrow> config \<Rightarrow> env list \<Rightarrow> ledger \<Rightarrow> ledger \<times> event list" where
  "process_daemon rd cfg [] db = (db, [])"
| "process_daemon rd cfg (w # ws) db =
     (case daemon_cycle rd cfg w db of (db1, evs1) \<Rightarrow>
      (case process_daemon rd cfg ws db1 of (db2, evs2) \<Rightarrow> (db2, evs1 @ evs2)))"

section \<open>Scenarios\<close>

text \<open>Concrete worlds on which the theorems below are run.\<close>

definition plain_mail :: message where
  "plain_mail =
     \<lparr>mail_data = ''body'', hdr_from = ''sender@test.jp'',
      hdr_subject = Some (SubjectStr ''Subject''), hdr_date = DateMissing\<rparr>"

definition two_mail_pop :: pop3 where
  "two_mail_pop =
     \<lparr>connect_ok = True, auth_ok = True, uidl_list = Some [(1, ''u1''), (2, ''u2'')],
      retr = (\<lambda>n. Some plain_mail), dele_ok = (\<lambda>n. True), quit_ok = True\<rparr>"

definition accepting_relay :: relay where
  "accepting_relay =
     \<lparr>pbs_ok = True, smtp_connect_ok = True, starttls_ok = True, login_ok = True,
      sendmail_ok = (\<lambda>d. True), smtp_quit_ok = True\<rparr>"

definition plain_config :: config where
  "plain_config =
     \<lparr>mail_retention_days = Some 30, start_date = None, pop_before_smtp = False,
      smtp_port = 587, use_tls = True\<rparr>"

definition two_mail_world :: env where
  "two_mail_world =
     \<lparr>now = 1000, sweep_pop = two_mail_pop, fetch_pop = two_mail_pop, smtp = accepting_relay,
      set_order = (\<lambda>xs. xs)\<rparr>"

definition known_row :: row where
  "known_row =
     \<lparr>forwarded_at = 500, from_addr = ''sender@test.jp'', subject = ''Subject'',
      forward_success = True\<rparr>"

definition failed_row :: row where
  "failed_row =
     \<lparr>forwarded_at = 500, from_addr = ''sender@test.jp'', subject = ''Subject'',
      forward_success = False\<rparr>"

text \<open>
  A start date of 1970-01-11 00:00:00 at UTC+9, as \<^verbatim>\<open>parse_start_date\<close> builds it, and
  a message whose Date header parses to the naive value 1970-01-01 00:00:00 (as
  \<^verbatim>\<open>parsedate_to_datetime\<close> returns for a \<^verbatim>\<open>-0000\<close> zone), ten days before it.
\<close>

definition cutoff_config :: config where
  "cutoff_config =
     \<lparr>mail_retention_days = Some 30, start_date = Some (Aware 864000000000 32400000000),
      pop_before_smtp = False, smtp_port = 587, use_tls = True\<rparr>"




text \<open>A message whose Subject header holds raw 8-bit bytes, and a relay that refuses.\<close>

definition header_mail :: message where
  "header_mail =
     \<lparr>mail_data = ''body'', hdr_from = ''sender@test.jp'',
      hdr_subject = Some SubjectHeader, hdr_date = DateMissing\<rparr>"

definition header_pop :: pop3 where
  "header_pop =
     \<lparr>connect_ok = True, auth_ok = True, uidl_list = Some [(1, ''u1'')],
      retr = (\<lambda>n. Some header_mail), dele_ok = (\<lambda>n. True), quit_ok = True\<rparr>"

definition refusing_relay :: relay where
  "refusing_relay =
     \<lparr>pbs_ok = True, smtp_connect_ok = True, starttls_ok = True, login_ok = True,
      sendmail_ok = (\<lambda>d. False), smtp_quit_ok = True\<rparr>"

definition header_refusing_world :: env where
  "header_refusing_world =
     \<lparr>now = 1000, sweep_pop = header_pop, fetch_pop = header_pop, smtp = refusing_relay,
      set_order = (\<lambda>xs. xs)\<rparr>"

text \<open>A server on which \<^verbatim>\<open>retr\<close> of the second message raises.\<close>

definition flaky_pop :: pop3 where
  "flaky_pop =
     \<lparr>connect_ok = True, auth_ok = True, uidl_list = Some [(1, ''u1''), (2, ''u2'')],
      retr = (\<lambda>n. if n = 1 then Some plain_mail else None),
      dele_ok = (\<lambda>n. True), quit_ok = True\<rparr>"

definition flaky_world :: env where
  "flaky_world =
     \<lparr>now = 1000, sweep_pop = two_mail_pop, fetch_pop = flaky_pop, smtp = accepting_relay,
      set_order = (\<lambda>xs. xs)\<rparr>"

text \<open>Forty days after 1970-01-01, and a ledger with an old, a young and a failed row.\<close>

definition sweep_ledger :: ledger where
  "sweep_ledger =
     [(''u1'', \<lparr>forwarded_at = 0, from_addr = ''a@test.jp'', subject = ''old'',
               forward_success = True\<rparr>),
      (''u2'', \<lparr>forwarded_at = 3456000000000, from_addr = ''a@test.jp'', subject = ''young'',
               forward_success = True\<rparr>),
      (''u3'', \<lparr>forwarded_at = 0, from_addr = ''a@test.jp'', subject = ''old failed'',
               forward_success = False\<rparr>)]"

definition sweep_world :: env where
  "sweep_world =
     \<lparr>now = 3456000000000, sweep_pop = two_mail_pop, fetch_pop = two_mail_pop,
      smtp = accepting_relay, set_order = (\<lambda>xs. xs)\<rparr>"

definition unreachable_pop :: pop3 where
  "unreachable_pop =
     \<lparr>connect_ok = False, auth_ok = True, uidl_list = Some [(1, ''u1''), (2, ''u2'')],
      retr = (\<lambda>n. Some plain_mail), dele_ok = (\<lambda>n. True), quit_ok = True\<rparr>"

definition unreachable_world :: env where
  "unreachable_world =
     \<lparr>now = 3456000000000, sweep_pop = unreachable_pop, fetch_pop = two_mail_pop,
      smtp = accepting_relay, set_order = (\<lambda>xs. xs)\<rparr>"

definition retention_config :: "int option \<Rightarrow> config" where
  "retention_config d =
     \<lparr>mail_retention_days = d, start_date = None, pop_before_smtp = False,
      smtp_port = 587, use_tls = True\<rparr>"

definition fresh_ledger :: ledger where
  "fresh_ledger =
     [(''u1'', \<lparr>forwarded_at = 3456000000000, from_addr = ''a@test.jp'', subject = ''fresh'',
               forward_success = True\<rparr>),
      (''u3'', \<lparr>forwarded_at = 0, from_addr = ''a@test.jp'', subject = ''old failed'',
               forward_success = False\<rparr>)]"

section \<open>Facts about the ledger and the listing\<close>

lemma keys_save:
  assumes "save_retrieved_mail t u f sj ok db = Inr db'"
  shows "get_retrieved_uidls db' = insert u (get_retrieved_uidls db)"
proof (cases sj)
  case (SubjectStr s)
  with assms have "db' = filter (\<lambda>kr. fst kr \<noteq> u) db
      @ [(u, \<lparr>forwarded_at = t, from_addr = f, subject = s, forward_success = ok\<rparr>)]"
    by (simp add: save_retrieved_mail_def)
  then show ?thesis by (force simp: get_retrieved_uidls_def)
next
  case SubjectHeader
  with assms show ?thesis by (simp add: save_retrieved_mail_def)
qed

lemma rows_of_save_other:
  assumes "save_retrieved_mail t v f sj ok db = Inr db'" and "v \<noteq> u"
  shows "rows_of u db' = rows_of u db"
proof (cases sj)
  case (SubjectStr s)
  with assms(1) have "db' = filter (\<lambda>kr. fst kr \<noteq> v) db
      @ [(v, \<lparr>forwarded_at = t, from_addr = f, subject = s, forward_success = ok\<rparr>)]"
    by (simp add: save_retrieved_mail_def)
  with assms(2) show ?thesis by (auto simp: rows_of_def intro: filter_cong)
next
  case SubjectHeader
  with assms(1) show ?thesis by (simp add: save_retrieved_mail_def)
qed

lemma rows_of_empty_iff: "rows_of u db = [] \<longleftrightarrow> u \<notin> get_retrieved_uidls db"
  by (auto simp: rows_of_def get_retrieved_uidls_def filter_empty_conv)

lemma evs_of_append: "evs_of u (xs @ ys) = evs_of u xs @ evs_of u ys"
  by (simp add: evs_of_def)

lemma tuples_of_append: "tuples_of u (xs @ ys) = tuples_of u xs @ tuples_of u ys"
  by (simp add: tuples_of_def)

lemma tuples_of_empty_iff: "tuples_of u ms = [] \<longleftrightarrow> u \<notin> tuple_uidl ` set ms"
  by (auto simp: tuples_of_def filter_empty_conv)

lemma retrieved_append: "retrieved (xs @ ys) = retrieved xs @ retrieved ys"
  by (induction xs rule: retrieved.induct) simp_all

lemma keys_server_uidls: "fst ` set (server_uidls items d) = fst ` set d \<union> snd ` set items"
  by (induction items d rule: server_uidls.induct) (auto simp: dom_update)

lemma distinct_server_uidls: "distinct (map fst d) \<Longrightarrow> distinct (map fst (server_uidls items d))"
  by (induction items d rule: server_uidls.induct) (auto simp: distinct_update)

lemma set_new_uidls:
  assumes "iterates_sets (set_order w)"
  shows "set (new_uidls w srv db) = fst ` set srv - get_retrieved_uidls db"
proof -
  let ?xs = "filter (\<lambda>u. u \<notin> get_retrieved_uidls db) (map fst srv)"
  have "mset (set_order w ?xs) = mset ?xs"
    using assms by (simp add: iterates_sets_def)
  then have "set (set_order w ?xs) = set ?xs"
    by (rule mset_eq_setD)
  then show ?thesis
    by (auto simp: new_uidls_def)
qed

lemma new_uidls_listed:
  assumes "iterates_sets (set_order w)"
  shows "set (new_uidls w (server_uidls items []) db) = snd ` set items - get_retrieved_uidls db"
  by (simp add: set_new_uidls[OF assms] keys_server_uidls)

lemma new_uidls_numbered:
  assumes "iterates_sets (set_order w)" and "u \<in> set (new_uidls w srv db)"
  shows "map_of srv u \<noteq> None"
proof -
  from assms have "u \<in> fst ` set srv" by (simp add: set_new_uidls)
  then show ?thesis by (simp add: map_of_eq_None_iff)
qed

section \<open>Facts about one iteration of the poll\<close>

lemma start_date_filter_shape:
  assumes "start_date_filter rd sd t u fa sj md db = (e, sf, db', es)"
  shows "(e = None \<and> sf \<and> db' = db \<and> es = [])
       \<or> (e \<noteq> None \<and> db' = db \<and> es = [])
       \<or> (e = None \<and> \<not> sf \<and> save_retrieved_mail t u fa sj False db = Inr db' \<and> es = [Save u False])
       \<or> (\<not> sf \<and> db' = db \<and> es = [SaveRaised u False])"
proof (cases sd)
  case None
  with assms show ?thesis by (simp add: start_date_filter_def)
next
  case (Some c)
  note c = this
  show ?thesis
  proof (cases md)
    case None
    with assms c show ?thesis by (simp add: start_date_filter_def)
  next
    case (Some d)
    note d = this
    show ?thesis
    proof (cases "dt_lt d c")
      case (Inl err)
      with assms c d show ?thesis
        by (cases rd) (auto simp: start_date_filter_def)
    next
      case (Inr b)
      note b = this
      show ?thesis
      proof (cases b)
        case False
        with assms c d b show ?thesis by (simp add: start_date_filter_def)
      next
        case True
        note tr = this
        show ?thesis
        proof (cases "save_retrieved_mail t u fa sj False db")
          case (Inl err)
          with assms c d b tr show ?thesis
            by (cases rd) (auto simp: start_date_filter_def)
        next
          case (Inr db1)
          with assms c d b tr show ?thesis by (simp add: start_date_filter_def)
        qed
      qed
    qed
  qed
qed

lemma fetch_step_cases:
  assumes "fetch_step rd sd t p srv u (ms, db, evs) = (ab, ms', db', evs')"
  obtains (no_number) "ab" "map_of srv u = None" "ms' = ms" "db' = db" "evs' = evs"
  | (raised) n where "ab" "map_of srv u = Some n" "ms' = ms" "db' = db"
      "evs' = evs @ [PopRetr u n]"
  | (save_raised) n where "ab" "map_of srv u = Some n" "ms' = ms" "db' = db"
      "evs' = evs @ [PopRetr u n, SaveRaised u False]"
  | (listed) n m where "\<not> ab" "map_of srv u = Some n" "retr p n = Some m"
      "ms' = ms @ [Tuple4 u (mail_data m) (hdr_from m) (subject_of m)]" "db' = db"
      "evs' = evs @ [PopRetr u n]"
  | (skipped) n f sj where "\<not> ab" "map_of srv u = Some n" "ms' = ms"
      "save_retrieved_mail t u f sj False db = Inr db'"
      "evs' = evs @ [PopRetr u n, Save u False]"
  | (unsaved) n where "\<not> ab" "map_of srv u = Some n" "ms' = ms" "db' = db"
      "evs' = evs @ [PopRetr u n, SaveRaised u False]"
proof (cases "map_of srv u")
  case None
  with assms have "ab" "ms' = ms" "db' = db" "evs' = evs" by (simp_all add: fetch_step_def)
  from this(1) None this(2,3,4) show thesis by (rule no_number)
next
  case (Some n)
  note n = this
  show thesis
  proof (cases "retr p n")
    case None
    with assms n have "ab" "ms' = ms" "db' = db" "evs' = evs @ [PopRetr u n]"
      by (simp_all add: fetch_step_def)
    from this(1) n this(2,3,4) show thesis by (rule raised)
  next
    case (Some m)
    note m = this
    obtain e sf dbf es where f:
      "start_date_filter rd sd t u (hdr_from m) (subject_of m) (mail_date_of m) db = (e, sf, dbf, es)"
      by (metis prod_cases4)
    note sh = start_date_filter_shape[OF f]
    show thesis
    proof (cases e)
      case (Some err)
      with assms n m f have r: "ab" "ms' = ms" "db' = dbf" "evs' = evs @ [PopRetr u n] @ es"
        by (simp_all add: fetch_step_def)
      from sh Some have "dbf = db \<and> (es = [] \<or> es = [SaveRaised u False])" by auto
      then have d: "dbf = db" and "es = [] \<or> es = [SaveRaised u False]" by simp_all
      from this(2) show thesis
      proof
        assume "es = []"
        with r d have "ab" "ms' = ms" "db' = db" "evs' = evs @ [PopRetr u n]" by simp_all
        from this(1) n this(2,3,4) show thesis by (rule raised)
      next
        assume "es = [SaveRaised u False]"
        with r d have "ab" "ms' = ms" "db' = db"
          "evs' = evs @ [PopRetr u n, SaveRaised u False]" by simp_all
        from this(1) n this(2,3,4) show thesis by (rule save_raised)
      qed
    next
      case None
      note e = this
      show thesis
      proof (cases sf)
        case True
        with assms n m f e have r: "\<not> ab"
          "ms' = ms @ [Tuple4 u (mail_data m) (hdr_from m) (subject_of m)]" "db' = dbf"
          "evs' = evs @ [PopRetr u n] @ es"
          by (simp_all add: fetch_step_def)
        from sh e True have "dbf = db \<and> es = []" by auto
        with r have "\<not> ab"
          "ms' = ms @ [Tuple4 u (mail_data m) (hdr_from m) (subject_of m)]" "db' = db"
          "evs' = evs @ [PopRetr u n]" by simp_all
        from this(1) n m this(2,3,4) show thesis by (rule listed)
      next
        case False
        with assms n m f e have r: "\<not> ab" "ms' = ms" "db' = dbf"
          "evs' = evs @ [PopRetr u n] @ es"
          by (simp_all add: fetch_step_def)
        from sh e False have
          "save_retrieved_mail t u (hdr_from m) (subject_of m) False db = Inr dbf \<and> es = [Save u False]
           \<or> dbf = db \<and> es = [SaveRaised u False]" by auto
        then show thesis
        proof
          assume a: "save_retrieved_mail t u (hdr_from m) (subject_of m) False db = Inr dbf
              \<and> es = [Save u False]"
          with r have "\<not> ab" "ms' = ms"
            "save_retrieved_mail t u (hdr_from m) (subject_of m) False db = Inr db'"
            "evs' = evs @ [PopRetr u n, Save u False]" by simp_all
          from this(1) n this(2,3,4) show thesis by (rule skipped)
        next
          assume "dbf = db \<and> es = [SaveRaised u False]"
          with r have "\<not> ab" "ms' = ms" "db' = db"
            "evs' = evs @ [PopRetr u n, SaveRaised u False]" by simp_all
          from this(1) n this(2,3,4) show thesis by (rule unsaved)
        qed
      qed
    qed
  qed
qed

text \<open>The consequences of the six cases that the loops need, one at a time.\<close>

lemma fetch_step_other:
  assumes "fetch_step rd sd t p srv v (ms, db, evs) = (ab, ms', db', evs')" and "v \<noteq> u"
  shows "evs_of u evs' = evs_of u evs \<and> tuples_of u ms' = tuples_of u ms
       \<and> rows_of u db' = rows_of u db"
  using assms(1)
proof (cases rule: fetch_step_cases)
  case no_number
  then show ?thesis by simp
next
  case (raised n)
  with assms(2) show ?thesis by (simp add: evs_of_def)
next
  case (save_raised n)
  with assms(2) show ?thesis by (simp add: evs_of_def)
next
  case (listed n m)
  with assms(2) show ?thesis by (simp add: evs_of_def tuples_of_def)
next
  case (skipped n f sj)
  note r = rows_of_save_other[OF skipped(4) assms(2)]
  with skipped assms(2) show ?thesis by (simp add: evs_of_def)
next
  case (unsaved n)
  with assms(2) show ?thesis by (simp add: evs_of_def)
qed

lemma fetch_step_retrieved:
  assumes "fetch_step rd sd t p srv u (ms, db, evs) = (ab, ms', db', evs')"
    and "map_of srv u \<noteq> None"
  shows "retrieved evs' = retrieved evs @ [u]"
  using assms(1)
proof (cases rule: fetch_step_cases)
  case no_number
  with assms(2) show ?thesis by simp
qed (simp_all add: retrieved_append)

lemma fetch_step_mono:
  assumes "fetch_step rd sd t p srv u (ms, db, evs) = (ab, ms', db', evs')"
  shows "get_retrieved_uidls db \<subseteq> get_retrieved_uidls db' \<and> set ms \<subseteq> set ms'
       \<and> set evs \<subseteq> set evs'
       \<and> tuple_uidl ` set ms' \<subseteq> insert u (tuple_uidl ` set ms)
       \<and> get_retrieved_uidls db' \<subseteq> insert u (get_retrieved_uidls db)
       \<and> ((\<forall>x \<in> set ms. arity x = 4) \<longrightarrow> (\<forall>x \<in> set ms'. arity x = 4))"
  using assms
proof (cases rule: fetch_step_cases)
  case no_number
  then show ?thesis by auto
next
  case (raised n)
  then show ?thesis by auto
next
  case (save_raised n)
  then show ?thesis by auto
next
  case (listed n m)
  then show ?thesis by auto
next
  case (skipped n f sj)
  note k = keys_save[OF skipped(4)]
  have a: "get_retrieved_uidls db \<subseteq> get_retrieved_uidls db'" unfolding k by blast
  have b: "get_retrieved_uidls db' \<subseteq> insert u (get_retrieved_uidls db)" unfolding k by blast
  from skipped(3) have c: "set ms \<subseteq> set ms'"
    "tuple_uidl ` set ms' \<subseteq> insert u (tuple_uidl ` set ms)"
    "(\<forall>x \<in> set ms. arity x = 4) \<longrightarrow> (\<forall>x \<in> set ms'. arity x = 4)" by auto
  from skipped(5) have d: "set evs \<subseteq> set evs'" by auto
  from a c(1) d c(2) b c(3) show ?thesis by (intro conjI)
next
  case (unsaved n)
  then show ?thesis by auto
qed

lemma fetch_step_covers:
  assumes "fetch_step rd sd t p srv u (ms, db, evs) = (False, ms', db', evs')"
  shows "u \<in> get_retrieved_uidls db' \<or> u \<in> tuple_uidl ` set ms'
       \<or> SaveRaised u False \<in> set evs'"
  using assms
proof (cases rule: fetch_step_cases)
  case (listed n m)
  then show ?thesis by simp
next
  case (skipped n f sj)
  from keys_save[OF skipped(4)] show ?thesis by simp
next
  case (unsaved n)
  then show ?thesis by simp
qed simp_all

section \<open>Facts about the loop of the poll\<close>

lemma subset_insert_step: "B \<subseteq> insert v A \<Longrightarrow> C \<subseteq> U \<union> B \<Longrightarrow> C \<subseteq> insert v U \<union> A"
  by blast

lemma subset_insert_stop: "B \<subseteq> insert v A \<Longrightarrow> B \<subseteq> insert v U \<union> A"
  by blast

lemma covers_mono:
  "v \<in> K \<or> v \<in> f ` M \<or> e \<in> E \<Longrightarrow> K \<subseteq> K' \<Longrightarrow> M \<subseteq> M' \<Longrightarrow> E \<subseteq> E'
     \<Longrightarrow> v \<in> K' \<or> v \<in> f ` M' \<or> e \<in> E'"
  by blast

lemma fetch_loop_Cons:
  assumes "fetch_loop rd sd t p srv (v # us) (ms, db, evs) = (ab, ms', db', evs')"
  obtains (stop) "fetch_step rd sd t p srv v (ms, db, evs) = (True, ms', db', evs')" "ab"
  | (go) ms1 db1 evs1 where
      "fetch_step rd sd t p srv v (ms, db, evs) = (False, ms1, db1, evs1)"
      "fetch_loop rd sd t p srv us (ms1, db1, evs1) = (ab, ms', db', evs')"
proof -
  obtain ab1 ms1 db1 evs1 where
    st: "fetch_step rd sd t p srv v (ms, db, evs) = (ab1, ms1, db1, evs1)"
    by (metis prod_cases4)
  show thesis
  proof (cases ab1)
    case True
    with assms st have e: "ms' = ms1" "db' = db1" "evs' = evs1" and ab: "ab" by simp_all
    from st True e have "fetch_step rd sd t p srv v (ms, db, evs) = (True, ms', db', evs')"
      by simp
    from this ab show thesis by (rule stop)
  next
    case False
    with assms st have lp: "fetch_loop rd sd t p srv us (ms1, db1, evs1) = (ab, ms', db', evs')"
      by simp
    from st False have "fetch_step rd sd t p srv v (ms, db, evs) = (False, ms1, db1, evs1)"
      by simp
    from this lp show thesis by (rule go)
  qed
qed

lemma fetch_loop_other:
  assumes "fetch_loop rd sd t p srv us (ms, db, evs) = (ab, ms', db', evs')" and "u \<notin> set us"
  shows "evs_of u evs' = evs_of u evs \<and> tuples_of u ms' = tuples_of u ms
       \<and> rows_of u db' = rows_of u db"
  using assms
proof (induction us arbitrary: ms db evs)
  case Nil
  then show ?case by simp
next
  case (Cons v us)
  have vu: "v \<noteq> u" and rest: "u \<notin> set us" using Cons.prems(2) by auto
  from Cons.prems(1) show ?case
  proof (cases rule: fetch_loop_Cons)
    case stop
    from fetch_step_other[OF stop(1) vu] show ?thesis .
  next
    case (go ms1 db1 evs1)
    from fetch_step_other[OF go(1) vu] Cons.IH[OF go(2) rest] show ?thesis by simp
  qed
qed

lemma fetch_loop_retrieved:
  assumes "fetch_loop rd sd t p srv us (ms, db, evs) = (ab, ms', db', evs')"
    and "\<forall>u \<in> set us. map_of srv u \<noteq> None"
  shows "\<exists>k. retrieved evs' = retrieved evs @ take k us \<and> (\<not> ab \<longrightarrow> take k us = us)"
  using assms
proof (induction us arbitrary: ms db evs)
  case Nil
  then show ?case by simp
next
  case (Cons v us)
  have nv: "map_of srv v \<noteq> None" and rest: "\<forall>u \<in> set us. map_of srv u \<noteq> None"
    using Cons.prems(2) by simp_all
  from Cons.prems(1) show ?case
  proof (cases rule: fetch_loop_Cons)
    case stop
    from fetch_step_retrieved[OF stop(1) nv] stop(2)
    have "retrieved evs' = retrieved evs @ take (Suc 0) (v # us)
        \<and> (\<not> ab \<longrightarrow> take (Suc 0) (v # us) = v # us)" by simp
    then show ?thesis by (rule exI[where x = "Suc 0"])
  next
    case (go ms1 db1 evs1)
    from Cons.IH[OF go(2) rest] obtain k where
      k: "retrieved evs' = retrieved evs1 @ take k us" "\<not> ab \<longrightarrow> take k us = us" by blast
    from fetch_step_retrieved[OF go(1) nv] k
    have "retrieved evs' = retrieved evs @ take (Suc k) (v # us)
        \<and> (\<not> ab \<longrightarrow> take (Suc k) (v # us) = v # us)" by simp
    then show ?thesis by (rule exI[where x = "Suc k"])
  qed
qed

lemma fetch_loop_mono:
  assumes "fetch_loop rd sd t p srv us (ms, db, evs) = (ab, ms', db', evs')"
  shows "get_retrieved_uidls db \<subseteq> get_retrieved_uidls db' \<and> set ms \<subseteq> set ms'
       \<and> set evs \<subseteq> set evs'
       \<and> tuple_uidl ` set ms' \<subseteq> set us \<union> tuple_uidl ` set ms
       \<and> get_retrieved_uidls db' \<subseteq> set us \<union> get_retrieved_uidls db
       \<and> ((\<forall>x \<in> set ms. arity x = 4) \<longrightarrow> (\<forall>x \<in> set ms'. arity x = 4))"
  using assms
proof (induction us arbitrary: ms db evs)
  case Nil
  then show ?case by simp
next
  case (Cons v us)
  have sv: "set (v # us) = insert v (set us)" by simp
  from Cons.prems show ?case
  proof (cases rule: fetch_loop_Cons)
    case stop
    note a = fetch_step_mono[OF stop(1)]
    from a have a1: "get_retrieved_uidls db \<subseteq> get_retrieved_uidls db'" by (elim conjE)
    from a have a2: "set ms \<subseteq> set ms'" by (elim conjE)
    from a have a3: "set evs \<subseteq> set evs'" by (elim conjE)
    from a have a4: "tuple_uidl ` set ms' \<subseteq> insert v (tuple_uidl ` set ms)" by (elim conjE)
    from a have a5: "get_retrieved_uidls db' \<subseteq> insert v (get_retrieved_uidls db)"
      by (elim conjE)
    from a have a6: "(\<forall>x \<in> set ms. arity x = 4) \<longrightarrow> (\<forall>x \<in> set ms'. arity x = 4)"
      by (elim conjE)
    note tu = subset_insert_stop[OF a4, of "set us"]
    note ku = subset_insert_stop[OF a5, of "set us"]
    from a1 a2 a3 tu ku a6 show ?thesis unfolding sv by (intro conjI)
  next
    case (go ms1 db1 evs1)
    note a = fetch_step_mono[OF go(1)]
    note b = Cons.IH[OF go(2)]
    from a have a1: "get_retrieved_uidls db \<subseteq> get_retrieved_uidls db1" by (elim conjE)
    from a have a2: "set ms \<subseteq> set ms1" by (elim conjE)
    from a have a3: "set evs \<subseteq> set evs1" by (elim conjE)
    from a have a4: "tuple_uidl ` set ms1 \<subseteq> insert v (tuple_uidl ` set ms)" by (elim conjE)
    from a have a5: "get_retrieved_uidls db1 \<subseteq> insert v (get_retrieved_uidls db)"
      by (elim conjE)
    from a have a6: "(\<forall>x \<in> set ms. arity x = 4) \<longrightarrow> (\<forall>x \<in> set ms1. arity x = 4)"
      by (elim conjE)
    from b have b1: "get_retrieved_uidls db1 \<subseteq> get_retrieved_uidls db'" by (elim conjE)
    from b have b2: "set ms1 \<subseteq> set ms'" by (elim conjE)
    from b have b3: "set evs1 \<subseteq> set evs'" by (elim conjE)
    from b have b4: "tuple_uidl ` set ms' \<subseteq> set us \<union> tuple_uidl ` set ms1" by (elim conjE)
    from b have b5: "get_retrieved_uidls db' \<subseteq> set us \<union> get_retrieved_uidls db1"
      by (elim conjE)
    from b have b6: "(\<forall>x \<in> set ms1. arity x = 4) \<longrightarrow> (\<forall>x \<in> set ms'. arity x = 4)"
      by (elim conjE)
    from a1 b1 have k: "get_retrieved_uidls db \<subseteq> get_retrieved_uidls db'"
      by (rule subset_trans)
    from a2 b2 have m: "set ms \<subseteq> set ms'" by (rule subset_trans)
    from a3 b3 have e: "set evs \<subseteq> set evs'" by (rule subset_trans)
    note tu = subset_insert_step[OF a4 b4]
    note ku = subset_insert_step[OF a5 b5]
    have ar: "(\<forall>x \<in> set ms. arity x = 4) \<longrightarrow> (\<forall>x \<in> set ms'. arity x = 4)"
    proof
      assume "\<forall>x \<in> set ms. arity x = 4"
      with a6 have "\<forall>x \<in> set ms1. arity x = 4" by (rule mp)
      with b6 show "\<forall>x \<in> set ms'. arity x = 4" by (rule mp)
    qed
    from k m e tu ku ar show ?thesis unfolding sv by (intro conjI)
  qed
qed

lemma fetch_loop_covers:
  assumes "fetch_loop rd sd t p srv us (ms, db, evs) = (False, ms', db', evs')"
  shows "\<forall>u \<in> set us. u \<in> get_retrieved_uidls db' \<or> u \<in> tuple_uidl ` set ms'
           \<or> SaveRaised u False \<in> set evs'"
  using assms
proof (induction us arbitrary: ms db evs)
  case Nil
  then show ?case by simp
next
  case (Cons v us)
  from Cons.prems show ?case
  proof (cases rule: fetch_loop_Cons)
    case stop
    then show ?thesis by simp
  next
    case (go ms1 db1 evs1)
    note c = fetch_step_covers[OF go(1)]
    note m = fetch_loop_mono[OF go(2)]
    from m have m1: "get_retrieved_uidls db1 \<subseteq> get_retrieved_uidls db'" by (elim conjE)
    from m have m2: "set ms1 \<subseteq> set ms'" by (elim conjE)
    from m have m3: "set evs1 \<subseteq> set evs'" by (elim conjE)
    note hd = covers_mono[OF c m1 m2 m3]
    note ih = Cons.IH[OF go(2)]
    show ?thesis
    proof
      fix u assume "u \<in> set (v # us)"
      then have "u = v \<or> u \<in> set us" by simp
      then show "u \<in> get_retrieved_uidls db' \<or> u \<in> tuple_uidl ` set ms'
           \<or> SaveRaised u False \<in> set evs'"
      proof
        assume "u = v"
        with hd show ?thesis by simp
      next
        assume "u \<in> set us"
        with ih show ?thesis by (rule bspec)
      qed
    qed
  qed
qed

section \<open>Facts about the poll as a whole\<close>

lemma fetch_new_mails_cases:
  assumes "fetch_new_mails rd cfg w db = (ms, db', evs)"
  obtains (early) "ms = []" "db' = db" "evs = [PopConnect, FetchError]"
      "\<not> connect_ok (fetch_pop w) \<or> \<not> auth_ok (fetch_pop w) \<or> uidl_list (fetch_pop w) = None"
  | (loop) items ab evs0 tl where "connect_ok (fetch_pop w)" "auth_ok (fetch_pop w)"
      "uidl_list (fetch_pop w) = Some items"
      "fetch_loop rd (start_date cfg) (now w) (fetch_pop w) (server_uidls items [])
         (new_uidls w (server_uidls items []) db) ([], db, [PopConnect]) = (ab, ms, db', evs0)"
      "evs = evs0 @ tl"
      "ab \<and> tl = [FetchError] \<or> \<not> ab \<and> (tl = [PopQuit] \<or> tl = [PopQuit, FetchError])"
proof (cases "connect_ok (fetch_pop w) \<and> auth_ok (fetch_pop w)")
  case False
  with assms have r: "ms = []" "db' = db" "evs = [PopConnect, FetchError]"
    by (auto simp: fetch_new_mails_def Let_def split: if_splits)
  from False have "\<not> connect_ok (fetch_pop w) \<or> \<not> auth_ok (fetch_pop w)
      \<or> uidl_list (fetch_pop w) = None" by blast
  with r show thesis by (rule early)
next
  case True
  note ca = this
  show thesis
  proof (cases "uidl_list (fetch_pop w)")
    case None
    with assms ca have r: "ms = []" "db' = db" "evs = [PopConnect, FetchError]"
      by (simp_all add: fetch_new_mails_def Let_def)
    from None have "\<not> connect_ok (fetch_pop w) \<or> \<not> auth_ok (fetch_pop w)
      \<or> uidl_list (fetch_pop w) = None" by blast
    with r show thesis by (rule early)
  next
    case (Some items)
    obtain ab ms0 db0 evs0 where lp:
      "fetch_loop rd (start_date cfg) (now w) (fetch_pop w) (server_uidls items [])
         (new_uidls w (server_uidls items []) db) ([], db, [PopConnect]) = (ab, ms0, db0, evs0)"
      by (metis prod_cases4)
    from assms ca Some lp have r: "ms = ms0" "db' = db0"
      by (cases ab; cases "quit_ok (fetch_pop w)"; simp add: fetch_new_mails_def Let_def)+
    from assms ca Some lp have
      "(ab \<and> evs = evs0 @ [FetchError])
       \<or> (\<not> ab \<and> (evs = evs0 @ [PopQuit] \<or> evs = evs0 @ [PopQuit, FetchError]))"
      by (cases ab; cases "quit_ok (fetch_pop w)"; simp add: fetch_new_mails_def Let_def)
    then obtain tl where tl: "evs = evs0 @ tl"
      "ab \<and> tl = [FetchError] \<or> \<not> ab \<and> (tl = [PopQuit] \<or> tl = [PopQuit, FetchError])"
      by auto
    from ca have c1: "connect_ok (fetch_pop w)" and c2: "auth_ok (fetch_pop w)" by simp_all
    from lp r have lp': "fetch_loop rd (start_date cfg) (now w) (fetch_pop w) (server_uidls items [])
         (new_uidls w (server_uidls items []) db) ([], db, [PopConnect]) = (ab, ms, db', evs0)"
      by simp
    from c1 c2 Some lp' tl show thesis by (rule loop)
  qed
qed

lemma fetch_known:
  assumes "fetch_new_mails rd cfg w db = (ms, db', evs)" and "iterates_sets (set_order w)"
    and "u \<in> get_retrieved_uidls db"
  shows "evs_of u evs = [] \<and> tuples_of u ms = [] \<and> rows_of u db' = rows_of u db"
  using assms(1)
proof (cases rule: fetch_new_mails_cases)
  case early
  then show ?thesis by (simp add: evs_of_def tuples_of_def)
next
  case (loop items ab evs0 tl)
  have "u \<notin> set (new_uidls w (server_uidls items []) db)"
    using assms(3) by (simp add: set_new_uidls[OF assms(2)])
  from fetch_loop_other[OF loop(4) this] have
    "evs_of u evs0 = [] \<and> tuples_of u ms = [] \<and> rows_of u db' = rows_of u db"
    by (simp add: evs_of_def tuples_of_def)
  moreover from loop(6) have "evs_of u tl = []" by (auto simp: evs_of_def)
  ultimately show ?thesis using loop(5) by (simp add: evs_of_append)
qed

lemma fetch_retrieved:
  assumes "fetch_new_mails rd cfg w db = (ms, db', evs)" and "iterates_sets (set_order w)"
    and "uidl_list (fetch_pop w) = Some items"
  shows "(\<exists>k. retrieved evs = take k (new_uidls w (server_uidls items []) db))
       \<and> (FetchError \<notin> set evs \<longrightarrow> retrieved evs = new_uidls w (server_uidls items []) db)"
  using assms(1)
proof (cases rule: fetch_new_mails_cases)
  case early
  then have "retrieved evs = take 0 (new_uidls w (server_uidls items []) db)"
    "FetchError \<in> set evs" by simp_all
  then show ?thesis by blast
next
  case (loop items' ab evs0 tl)
  from loop(3) assms(3) have i: "items' = items" by simp
  let ?us = "new_uidls w (server_uidls items []) db"
  have nn: "\<forall>u \<in> set ?us. map_of (server_uidls items []) u \<noteq> None"
    using new_uidls_numbered[OF assms(2)] by blast
  from fetch_loop_retrieved[OF loop(4)[unfolded i] nn] obtain k where
    k: "retrieved evs0 = retrieved [PopConnect] @ take k ?us" "\<not> ab \<longrightarrow> take k ?us = ?us"
    by blast
  from loop(6) have tl0: "retrieved tl = []" by auto
  from k(1) tl0 loop(5) have r: "retrieved evs = take k ?us"
    by (simp add: retrieved_append)
  have "FetchError \<notin> set evs \<longrightarrow> \<not> ab" using loop(5,6) by auto
  with k(2) r have "FetchError \<notin> set evs \<longrightarrow> retrieved evs = ?us" by simp
  with r show ?thesis by blast
qed

lemma fetch_tuples:
  assumes "fetch_new_mails rd cfg w db = (ms, db', evs)" and "iterates_sets (set_order w)"
  shows "(\<forall>x \<in> set ms. arity x = 4)
       \<and> get_retrieved_uidls db \<subseteq> get_retrieved_uidls db'
       \<and> (\<forall>items. uidl_list (fetch_pop w) = Some items
            \<longrightarrow> tuple_uidl ` set ms \<subseteq> snd ` set items - get_retrieved_uidls db)"
  using assms(1)
proof (cases rule: fetch_new_mails_cases)
  case early
  then show ?thesis by simp
next
  case (loop items ab evs0 tl)
  note m = fetch_loop_mono[OF loop(4)]
  from m have a: "\<forall>x \<in> set ms. arity x = 4" by simp
  from m have b: "get_retrieved_uidls db \<subseteq> get_retrieved_uidls db'" by blast
  from m have "tuple_uidl ` set ms \<subseteq> set (new_uidls w (server_uidls items []) db)" by simp
  then have "tuple_uidl ` set ms \<subseteq> snd ` set items - get_retrieved_uidls db"
    by (simp add: new_uidls_listed[OF assms(2)])
  with loop(3) have c: "\<forall>items. uidl_list (fetch_pop w) = Some items
            \<longrightarrow> tuple_uidl ` set ms \<subseteq> snd ` set items - get_retrieved_uidls db" by simp
  from a b c show ?thesis by (intro conjI)
qed

lemma fetch_covers:
  assumes "fetch_new_mails rd cfg w db = (ms, db', evs)" and "iterates_sets (set_order w)"
    and "FetchError \<notin> set evs" and "\<forall>u ok. SaveRaised u ok \<notin> set evs"
    and "uidl_list (fetch_pop w) = Some items"
  shows "snd ` set items \<union> get_retrieved_uidls db
           \<subseteq> get_retrieved_uidls db' \<union> tuple_uidl ` set ms"
  using assms(1)
proof (cases rule: fetch_new_mails_cases)
  case early
  with assms(3) show ?thesis by simp
next
  case (loop items' ab evs0 tl)
  from loop(3) assms(5) have i: "items' = items" by simp
  from loop(5,6) assms(3) have nab: "\<not> ab" by auto
  with loop(4) i have lp:
    "fetch_loop rd (start_date cfg) (now w) (fetch_pop w) (server_uidls items [])
         (new_uidls w (server_uidls items []) db) ([], db, [PopConnect]) = (False, ms, db', evs0)"
    by simp
  note c = fetch_loop_covers[OF lp]
  note m = fetch_loop_mono[OF lp]
  from loop(5) assms(4) have ns: "\<forall>u. SaveRaised u False \<notin> set evs0" by simp
  show ?thesis
  proof
    fix u assume u: "u \<in> snd ` set items \<union> get_retrieved_uidls db"
    show "u \<in> get_retrieved_uidls db' \<union> tuple_uidl ` set ms"
    proof (cases "u \<in> get_retrieved_uidls db")
      case True
      with m show ?thesis by blast
    next
      case False
      with u have "u \<in> set (new_uidls w (server_uidls items []) db)"
        by (simp add: new_uidls_listed[OF assms(2)])
      with c ns show ?thesis by blast
    qed
  qed
qed

section \<open>Facts about the relay loops and the drivers\<close>

lemma daemon_loop_Cons:
  assumes "daemon_loop cfg w (x # xs) (db, evs) = (r, db', evs')" and "arity x = 4"
  obtains (raised) u d f sj where "x = Tuple4 u d f sj" "r \<noteq> None" "db' = db"
      "evs' = evs @ [Forward u (forward_mail cfg (smtp w) d),
                     SaveRaised u (forward_mail cfg (smtp w) d)]"
  | (saved) u d f sj db1 where "x = Tuple4 u d f sj"
      "save_retrieved_mail (now w) u f sj (forward_mail cfg (smtp w) d) db = Inr db1"
      "daemon_loop cfg w xs
         (db1, evs @ [Forward u (forward_mail cfg (smtp w) d),
                      Save u (forward_mail cfg (smtp w) d)]) = (r, db', evs')"
proof -
  from assms(2) obtain u d f sj where x: "x = Tuple4 u d f sj" by (cases x) auto
  show thesis
  proof (cases "save_retrieved_mail (now w) u f sj (forward_mail cfg (smtp w) d) db")
    case (Inl e)
    with assms(1) x have "r \<noteq> None" "db' = db"
      "evs' = evs @ [Forward u (forward_mail cfg (smtp w) d),
                     SaveRaised u (forward_mail cfg (smtp w) d)]"
      by (auto simp: Let_def)
    from x this show thesis by (rule raised)
  next
    case (Inr db1)
    with assms(1) x have "daemon_loop cfg w xs
         (db1, evs @ [Forward u (forward_mail cfg (smtp w) d),
                      Save u (forward_mail cfg (smtp w) d)]) = (r, db', evs')"
      by (simp add: Let_def)
    from x Inr this show thesis by (rule saved)
  qed
qed

lemma daemon_loop_other:
  assumes "daemon_loop cfg w xs (db, evs) = (r, db', evs')" and "\<forall>x \<in> set xs. arity x = 4"
    and "u \<notin> tuple_uidl ` set xs"
  shows "evs_of u evs' = evs_of u evs \<and> rows_of u db' = rows_of u db"
  using assms
proof (induction xs arbitrary: db evs)
  case Nil
  then show ?case by simp
next
  case (Cons x xs)
  have ax: "arity x = 4" and rest: "\<forall>x \<in> set xs. arity x = 4"
    using Cons.prems(2) by simp_all
  have nx: "tuple_uidl x \<noteq> u" and nr: "u \<notin> tuple_uidl ` set xs"
    using Cons.prems(3) by auto
  from Cons.prems(1) ax show ?case
  proof (cases rule: daemon_loop_Cons)
    case (raised v d f sj)
    with nx show ?thesis by (simp add: evs_of_def)
  next
    case (saved v d f sj db1)
    from saved(1) nx have vu: "v \<noteq> u" by simp
    from Cons.IH[OF saved(3) rest nr] rows_of_save_other[OF saved(2) vu] vu
    show ?thesis by (simp add: evs_of_def)
  qed
qed

lemma daemon_loop_facts:
  assumes "daemon_loop cfg w xs (db, evs) = (r, db', evs')" and "\<forall>x \<in> set xs. arity x = 4"
  shows "retrieved evs' = retrieved evs \<and> set evs \<subseteq> set evs'
       \<and> (r = None \<longrightarrow> get_retrieved_uidls db' = get_retrieved_uidls db \<union> tuple_uidl ` set xs)"
  using assms
proof (induction xs arbitrary: db evs)
  case Nil
  then show ?case by simp
next
  case (Cons x xs)
  have ax: "arity x = 4" and rest: "\<forall>x \<in> set xs. arity x = 4"
    using Cons.prems(2) by simp_all
  from Cons.prems(1) ax show ?case
  proof (cases rule: daemon_loop_Cons)
    case (raised v d f sj)
    then show ?thesis by (auto simp: retrieved_append)
  next
    case (saved v d f sj db1)
    note ih = Cons.IH[OF saved(3) rest]
    note k = keys_save[OF saved(2)]
    from ih have a: "retrieved evs' = retrieved evs" by (simp add: retrieved_append)
    from ih have b: "set evs \<subseteq> set evs'" by simp
    from ih k saved(1) have c: "r = None \<longrightarrow>
        get_retrieved_uidls db' = get_retrieved_uidls db \<union> tuple_uidl ` set (x # xs)"
      by auto
    from a b c show ?thesis by (intro conjI)
  qed
qed

lemma once_loop_arity4:
  assumes "\<forall>x \<in> set xs. arity x = 4"
  shows "once_loop cfg w xs (db, evs, a, b)
       = (if xs = [] then None else Some ValueError, db, evs, a, b)"
proof (cases xs)
  case Nil
  then show ?thesis by simp
next
  case (Cons x xs')
  with assms obtain v d' f' s' where x: "x = Tuple4 v d' f' s'"
    by (cases x) auto
  with Cons show ?thesis by simp
qed

lemma rd_shape:
  assumes "reconcile_daemon rd cfg w db = (db', evs)" and "iterates_sets (set_order w)"
  obtains ms db2 evs2 r evs3 where "fetch_new_mails rd cfg w db = (ms, db2, evs2)"
    "daemon_loop cfg w ms (db2, evs2) = (r, db', evs3)" "\<forall>x \<in> set ms. arity x = 4"
    "r = None \<and> evs = evs3 \<or> r \<noteq> None \<and> evs = evs3 @ [CycleError]"
proof -
  obtain ms db2 evs2 where f: "fetch_new_mails rd cfg w db = (ms, db2, evs2)"
    by (metis prod_cases3)
  from fetch_tuples[OF f assms(2)] have ar: "\<forall>x \<in> set ms. arity x = 4" by blast
  obtain r db3 evs3 where l: "daemon_loop cfg w ms (db2, evs2) = (r, db3, evs3)"
    by (metis prod_cases3)
  from assms(1) f l have "db' = db3"
    "r = None \<and> evs = evs3 \<or> r \<noteq> None \<and> evs = evs3 @ [CycleError]"
    by (cases r; simp add: reconcile_daemon_def)+
  then have l': "daemon_loop cfg w ms (db2, evs2) = (r, db', evs3)" using l by simp
  from f l' ar \<open>r = None \<and> evs = evs3 \<or> r \<noteq> None \<and> evs = evs3 @ [CycleError]\<close>
  show thesis by (rule that)
qed

lemma ro_shape:
  assumes "reconcile_once rd cfg w db = (db', evs, r)" and "iterates_sets (set_order w)"
  shows "\<exists>ms. fetch_new_mails rd cfg w db = (ms, db', evs)
           \<and> r = (if ms = [] then Inr \<lparr>new_count = 0, relayed_count = 0, failed_relays = 0\<rparr>
                  else Inl ValueError)"
proof -
  obtain ms db2 evs2 where f: "fetch_new_mails rd cfg w db = (ms, db2, evs2)"
    by (metis prod_cases3)
  from fetch_tuples[OF f assms(2)] have "\<forall>x \<in> set ms. arity x = 4" by blast
  note once_loop_arity4[OF this, of cfg w db2 evs2 0 0]
  with assms(1) f show ?thesis
    by (auto simp: reconcile_once_def split: if_splits)
qed

lemma rd_known:
  assumes "reconcile_daemon rd cfg w db = (db', evs)" and "iterates_sets (set_order w)"
    and "u \<in> get_retrieved_uidls db"
  shows "evs_of u evs = [] \<and> rows_of u db' = rows_of u db"
  using assms(1,2)
proof (cases rule: rd_shape)
  case (1 ms db2 evs2 r evs3)
  note k = fetch_known[OF 1(1) assms(2,3)]
  then have "u \<notin> tuple_uidl ` set ms" by (simp add: tuples_of_empty_iff)
  from daemon_loop_other[OF 1(2,3) this] k have
    "evs_of u evs3 = [] \<and> rows_of u db' = rows_of u db" by simp
  with 1(4) show ?thesis by (auto simp: evs_of_append evs_of_def)
qed

lemma rd_retrieved:
  assumes "reconcile_daemon rd cfg w db = (db', evs)" and "iterates_sets (set_order w)"
    and "fetch_new_mails rd cfg w db = (ms, db2, evs2)"
  shows "retrieved evs = retrieved evs2"
  using assms(1,2)
proof (cases rule: rd_shape)
  case (1 ms' db2' evs2' r evs3)
  from 1(1) assms(3) have e: "evs2' = evs2" by simp
  from daemon_loop_facts[OF 1(2,3)] e have "retrieved evs3 = retrieved evs2" by simp
  with 1(4) show ?thesis by (auto simp: retrieved_append)
qed

lemma rd_keys:
  assumes "reconcile_daemon rd cfg w db = (db', evs)" and "iterates_sets (set_order w)"
    and "FetchError \<notin> set evs" and "CycleError \<notin> set evs"
    and "\<forall>u ok. SaveRaised u ok \<notin> set evs"
    and "uidl_list (fetch_pop w) = Some items"
  shows "snd ` set items \<union> get_retrieved_uidls db \<subseteq> get_retrieved_uidls db'"
  using assms(1,2)
proof (cases rule: rd_shape)
  case (1 ms db2 evs2 r evs3)
  from 1(4) assms(4) have r: "r = None" and e: "evs = evs3" by auto
  note d = daemon_loop_facts[OF 1(2,3)]
  from d e have sub: "set evs2 \<subseteq> set evs" by simp
  from sub assms(3) have nf: "FetchError \<notin> set evs2" by blast
  from sub assms(5) have ns: "\<forall>u ok. SaveRaised u ok \<notin> set evs2" by blast
  note c = fetch_covers[OF 1(1) assms(2) nf ns assms(6)]
  from d r have "get_retrieved_uidls db' = get_retrieved_uidls db2 \<union> tuple_uidl ` set ms"
    by simp
  with c show ?thesis by simp
qed

lemma nothing_new:
  assumes "iterates_sets (set_order w)" and "snd ` set items \<subseteq> get_retrieved_uidls db"
  shows "new_uidls w (server_uidls items []) db = []"
proof -
  have "set (new_uidls w (server_uidls items []) db) = {}"
    using assms(2) by (auto simp: new_uidls_listed[OF assms(1)])
  then show ?thesis by simp
qed

lemma poll_nothing_new:
  assumes "new_uidls w (server_uidls items []) db = []" and "uidl_list (fetch_pop w) = Some items"
  shows "\<exists>evs. fetch_new_mails rd cfg w db = ([], db, evs)
           \<and> filter (\<lambda>e. ev_uidl e \<noteq> None) evs = []"
  using assms by (auto simp: fetch_new_mails_def Let_def)

section \<open>Facts about the retention sweep\<close>

lemma dele_kind_mono:
  assumes "S \<subseteq> T"
    and "\<forall>e \<in> set es. \<exists>u n. e = PopDele u n \<and> u \<in> S \<and> map_of srv u = Some n"
  shows "\<forall>e \<in> set es. \<exists>u n. e = PopDele u n \<and> u \<in> T \<and> map_of srv u = Some n"
  using assms by blast

lemma dele_loop_prefix:
  assumes "dele_loop p srv sel pend evs = (r, evs')"
  shows "\<exists>es. evs' = evs @ es
          \<and> (\<forall>e \<in> set es. \<exists>u n. e = PopDele u n \<and> u \<in> fst ` set sel \<and> map_of srv u = Some n)"
  using assms
proof (induction sel arbitrary: pend evs)
  case Nil
  then have "evs' = evs @ []" by simp
  moreover have "\<forall>e \<in> set ([] :: event list).
      \<exists>u n. e = PopDele u n \<and> u \<in> fst ` set ([] :: ledger) \<and> map_of srv u = Some n"
    by simp
  ultimately show ?case by blast
next
  case (Cons a sel)
  obtain u r0 where a: "a = (u, r0)" by (cases a)
  have hd: "u \<in> fst ` set (a # sel)" using a by simp
  have sub: "fst ` set sel \<subseteq> fst ` set (a # sel)" by auto
  show ?case
  proof (cases "map_of srv u")
    case None
    with Cons.prems a have "dele_loop p srv sel (delete_row u pend) evs = (r, evs')" by simp
    from Cons.IH[OF this] obtain es where
      es: "evs' = evs @ es"
        "\<forall>e \<in> set es. \<exists>u n. e = PopDele u n \<and> u \<in> fst ` set sel \<and> map_of srv u = Some n"
      by blast
    note dele_kind_mono[OF sub es(2)]
    with es(1) show ?thesis by blast
  next
    case (Some n)
    have k: "\<exists>u' n'. PopDele u n = PopDele u' n' \<and> u' \<in> fst ` set (a # sel)
               \<and> map_of srv u' = Some n'"
      using hd Some by blast
    show ?thesis
    proof (cases "dele_ok p n")
      case False
      with Cons.prems a Some have e: "evs' = evs @ [PopDele u n]" by simp
      have "\<forall>e \<in> set [PopDele u n]. \<exists>u' n'. e = PopDele u' n' \<and> u' \<in> fst ` set (a # sel)
               \<and> map_of srv u' = Some n'"
        using k by simp
      with e show ?thesis by blast
    next
      case True
      with Cons.prems a Some have
        "dele_loop p srv sel (delete_row u pend) (evs @ [PopDele u n]) = (r, evs')" by simp
      from Cons.IH[OF this] obtain es where
        es: "evs' = (evs @ [PopDele u n]) @ es"
          "\<forall>e \<in> set es. \<exists>u n. e = PopDele u n \<and> u \<in> fst ` set sel \<and> map_of srv u = Some n"
        by blast
      note m = dele_kind_mono[OF sub es(2)]
      have e: "evs' = evs @ (PopDele u n # es)" using es(1) by simp
      have "\<forall>e \<in> set (PopDele u n # es).
          \<exists>u' n'. e = PopDele u' n' \<and> u' \<in> fst ` set (a # sel) \<and> map_of srv u' = Some n'"
      proof
        fix x assume "x \<in> set (PopDele u n # es)"
        then have "x = PopDele u n \<or> x \<in> set es" by simp
        then show "\<exists>u' n'. x = PopDele u' n' \<and> u' \<in> fst ` set (a # sel) \<and> map_of srv u' = Some n'"
        proof
          assume "x = PopDele u n"
          with k show ?thesis by simp
        next
          assume "x \<in> set es"
          with m show ?thesis by blast
        qed
      qed
      with e show ?thesis by blast
    qed
  qed
qed

lemma delete_row_filter:
  "filter (\<lambda>kr. fst kr \<notin> S) (delete_row u pend) = filter (\<lambda>kr. fst kr \<notin> insert u S) pend"
  by (induction pend) (simp_all add: delete_row_def)

lemma dele_loop_Some:
  assumes "dele_loop p srv sel pend evs = (Some pend', evs')"
  shows "pend' = filter (\<lambda>kr. fst kr \<notin> fst ` set sel) pend
       \<and> (\<forall>u n. u \<in> fst ` set sel \<and> map_of srv u = Some n \<longrightarrow> PopDele u n \<in> set evs' \<and> dele_ok p n)"
  using assms
proof (induction sel arbitrary: pend evs)
  case Nil
  then show ?case by simp
next
  case (Cons a sel)
  obtain u r0 where a: "a = (u, r0)" by (cases a)
  have ins: "fst ` set (a # sel) = insert u (fst ` set sel)" using a by simp
  have flt: "filter (\<lambda>kr. fst kr \<notin> fst ` set sel) (delete_row u pend)
           = filter (\<lambda>kr. fst kr \<notin> fst ` set (a # sel)) pend"
    unfolding ins by (rule delete_row_filter)
  have step: "\<exists>evs1. dele_loop p srv sel (delete_row u pend) evs1 = (Some pend', evs')
      \<and> (\<forall>n. map_of srv u = Some n \<longrightarrow> PopDele u n \<in> set evs' \<and> dele_ok p n)"
  proof (cases "map_of srv u")
    case None
    with Cons.prems a have "dele_loop p srv sel (delete_row u pend) evs = (Some pend', evs')"
      by simp
    with None show ?thesis by auto
  next
    case (Some n)
    show ?thesis
    proof (cases "dele_ok p n")
      case False
      with Cons.prems a Some show ?thesis by simp
    next
      case True
      with Cons.prems a Some have lp:
        "dele_loop p srv sel (delete_row u pend) (evs @ [PopDele u n]) = (Some pend', evs')" by simp
      from dele_loop_prefix[OF lp] obtain es where "evs' = (evs @ [PopDele u n]) @ es" by blast
      then have "PopDele u n \<in> set evs'" by simp
      with lp Some True show ?thesis by auto
    qed
  qed
  then obtain evs1 where
    lp: "dele_loop p srv sel (delete_row u pend) evs1 = (Some pend', evs')" and
    hdu: "\<forall>n. map_of srv u = Some n \<longrightarrow> PopDele u n \<in> set evs' \<and> dele_ok p n"
    by blast
  from Cons.IH[OF lp] have
    ih1: "pend' = filter (\<lambda>kr. fst kr \<notin> fst ` set sel) (delete_row u pend)" and
    ih2: "\<forall>u n. u \<in> fst ` set sel \<and> map_of srv u = Some n
            \<longrightarrow> PopDele u n \<in> set evs' \<and> dele_ok p n"
    by blast+
  have p1: "pend' = filter (\<lambda>kr. fst kr \<notin> fst ` set (a # sel)) pend"
    using ih1 flt by simp
  have p2: "\<forall>u' n'. u' \<in> fst ` set (a # sel) \<and> map_of srv u' = Some n'
            \<longrightarrow> PopDele u' n' \<in> set evs' \<and> dele_ok p n'"
    unfolding ins using hdu ih2 by blast
  from p1 p2 show ?case by (intro conjI)
qed

lemma sweep_session_facts:
  assumes "sweep_session p sel db = (db', evs)"
  shows "(db' = db \<or> connect_ok p \<and> auth_ok p \<and> (\<exists>items. uidl_list p = Some items)
              \<and> (\<forall>u n. PopDele u n \<in> set evs \<longrightarrow> dele_ok p n)
              \<and> db' = filter (\<lambda>kr. fst kr \<notin> fst ` set sel) db)
       \<and> (\<forall>e \<in> set evs. e = PopConnect \<or> e = PopQuit \<or> e = SweepError
              \<or> (\<exists>u n. e = PopDele u n \<and> u \<in> fst ` set sel))
       \<and> (SweepError \<notin> set evs \<longrightarrow> db' = filter (\<lambda>kr. fst kr \<notin> fst ` set sel) db
              \<and> (\<forall>items u n. uidl_list p = Some items \<and> u \<in> fst ` set sel
                    \<and> map_of (server_uidls items []) u = Some n \<longrightarrow> PopDele u n \<in> set evs))
       \<and> PopConnect \<in> set evs
       \<and> (\<not> connect_ok p \<or> \<not> auth_ok p \<or> uidl_list p = None
              \<longrightarrow> db' = db \<and> evs = [PopConnect, SweepError])"
proof (cases "connect_ok p \<and> auth_ok p")
  case False
  with assms have "db' = db \<and> evs = [PopConnect, SweepError]"
    by (auto simp: sweep_session_def split: if_splits)
  then show ?thesis by simp
next
  case True
  note ca = this
  show ?thesis
  proof (cases "uidl_list p")
    case None
    with assms ca have "db' = db \<and> evs = [PopConnect, SweepError]"
      by (simp add: sweep_session_def)
    then show ?thesis by simp
  next
    case (Some items)
    note ul = this
    obtain r evs0 where lp: "dele_loop p (server_uidls items []) sel db [PopConnect] = (r, evs0)"
      by (cases "dele_loop p (server_uidls items []) sel db [PopConnect]")
    from dele_loop_prefix[OF lp] obtain es where
      es: "evs0 = [PopConnect] @ es"
        "\<forall>e \<in> set es. \<exists>u n. e = PopDele u n \<and> u \<in> fst ` set sel
            \<and> map_of (server_uidls items []) u = Some n"
      by blast
    have c5: "\<not> (\<not> connect_ok p \<or> \<not> auth_ok p \<or> uidl_list p = None)"
      using ca ul by simp
    have c4': "PopConnect \<in> set evs0" using es(1) by simp
    have c2': "\<forall>e \<in> set evs0. e = PopConnect \<or> (\<exists>u n. e = PopDele u n \<and> u \<in> fst ` set sel)"
    proof
      fix e assume "e \<in> set evs0"
      with es(1) have "e = PopConnect \<or> e \<in> set es" by simp
      with es(2) show "e = PopConnect \<or> (\<exists>u n. e = PopDele u n \<and> u \<in> fst ` set sel)"
        by blast
    qed
    show ?thesis
    proof (cases r)
      case None
      with assms ca ul lp have e: "db' = db" "evs = evs0 @ [SweepError]"
        by (simp_all add: sweep_session_def)
      have c2: "\<forall>e \<in> set evs. e = PopConnect \<or> e = PopQuit \<or> e = SweepError
              \<or> (\<exists>u n. e = PopDele u n \<and> u \<in> fst ` set sel)"
      proof
        fix x assume "x \<in> set evs"
        with e(2) have "x \<in> set evs0 \<or> x = SweepError" by auto
        with c2' show "x = PopConnect \<or> x = PopQuit \<or> x = SweepError
              \<or> (\<exists>u n. x = PopDele u n \<and> u \<in> fst ` set sel)" by blast
      qed
      have c3: "SweepError \<in> set evs" using e(2) by simp
      have c4: "PopConnect \<in> set evs" using e(2) c4' by simp
      from e(1) c2 c3 c4 c5 show ?thesis by blast
    next
      case (Some pend')
      note r = this
      from dele_loop_Some[OF lp[unfolded r]] have
        p': "pend' = filter (\<lambda>kr. fst kr \<notin> fst ` set sel) db" and
        al: "\<forall>u n. u \<in> fst ` set sel \<and> map_of (server_uidls items []) u = Some n
               \<longrightarrow> PopDele u n \<in> set evs0 \<and> dele_ok p n"
        by blast+
      from assms ca ul lp r have
        r2: "db' = pend'" "evs = evs0 @ [PopQuit] \<or> evs = evs0 @ [PopQuit, SweepError]"
        by (auto simp: sweep_session_def split: if_splits)
      have sub: "set evs0 \<subseteq> set evs" using r2(2) by auto
      have sup: "\<forall>x \<in> set evs. x \<in> set evs0 \<or> x = PopQuit \<or> x = SweepError"
        using r2(2) by auto
      have ok: "\<forall>u n. PopDele u n \<in> set evs \<longrightarrow> dele_ok p n"
      proof (intro allI impI)
        fix u n assume "PopDele u n \<in> set evs"
        with sup have "PopDele u n \<in> set evs0" by blast
        with es(1) have "PopDele u n \<in> set es" by simp
        with es(2) have "u \<in> fst ` set sel \<and> map_of (server_uidls items []) u = Some n"
          by blast
        with al show "dele_ok p n" by blast
      qed
      have c1: "db' = filter (\<lambda>kr. fst kr \<notin> fst ` set sel) db" using r2(1) p' by simp
      have c2: "\<forall>e \<in> set evs. e = PopConnect \<or> e = PopQuit \<or> e = SweepError
              \<or> (\<exists>u n. e = PopDele u n \<and> u \<in> fst ` set sel)"
      proof
        fix x assume "x \<in> set evs"
        with sup have "x \<in> set evs0 \<or> x = PopQuit \<or> x = SweepError" by blast
        with c2' show "x = PopConnect \<or> x = PopQuit \<or> x = SweepError
              \<or> (\<exists>u n. x = PopDele u n \<and> u \<in> fst ` set sel)" by blast
      qed
      have c3: "\<forall>items' u n. uidl_list p = Some items' \<and> u \<in> fst ` set sel
                    \<and> map_of (server_uidls items' []) u = Some n \<longrightarrow> PopDele u n \<in> set evs"
      proof (intro allI impI, elim conjE)
        fix items' u n
        assume a: "uidl_list p = Some items'" "u \<in> fst ` set sel"
          "map_of (server_uidls items' []) u = Some n"
        from a(1) ul have "items' = items" by simp
        with a(2,3) al have "PopDele u n \<in> set evs0" by blast
        with sub show "PopDele u n \<in> set evs" by blast
      qed
      have c4: "PopConnect \<in> set evs" using sub c4' by blast
      have c0: "\<exists>items. uidl_list p = Some items" using ul by blast
      have ca1: "connect_ok p" and ca2: "auth_ok p" using ca by simp_all
      have A: "db' = db \<or> connect_ok p \<and> auth_ok p \<and> (\<exists>items. uidl_list p = Some items)
              \<and> (\<forall>u n. PopDele u n \<in> set evs \<longrightarrow> dele_ok p n)
              \<and> db' = filter (\<lambda>kr. fst kr \<notin> fst ` set sel) db"
        using ca1 ca2 c0 ok c1 by (intro disjI2 conjI)
      have C: "SweepError \<notin> set evs \<longrightarrow> db' = filter (\<lambda>kr. fst kr \<notin> fst ` set sel) db
              \<and> (\<forall>items u n. uidl_list p = Some items \<and> u \<in> fst ` set sel
                    \<and> map_of (server_uidls items []) u = Some n \<longrightarrow> PopDele u n \<in> set evs)"
        using c1 c3 by (intro impI conjI)
      have E: "\<not> connect_ok p \<or> \<not> auth_ok p \<or> uidl_list p = None
              \<longrightarrow> db' = db \<and> evs = [PopConnect, SweepError]"
        using c5 by (rule_tac impI) (erule notE)
      from A c2 C c4 E show ?thesis by (intro conjI)
    qed
  qed
qed

lemma selected_keys:
  assumes "distinct (map fst db)"
  shows "filter (\<lambda>kr. fst kr \<notin> fst ` set (filter P db)) db = filter (\<lambda>kr. \<not> P kr) db"
proof (rule filter_cong[OF refl])
  fix kr assume m: "kr \<in> set db"
  have "fst kr \<in> fst ` set (filter P db) \<longleftrightarrow> P kr"
  proof
    assume "fst kr \<in> fst ` set (filter P db)"
    then obtain kr' where k: "kr' \<in> set db" "P kr'" "fst kr' = fst kr" by auto
    from assms have "inj_on fst (set db)" by (simp add: distinct_map)
    with k m have "kr' = kr" by (auto dest: inj_onD)
    with k show "P kr" by simp
  next
    assume "P kr"
    with m show "fst kr \<in> fst ` set (filter P db)" by auto
  qed
  then show "(fst kr \<notin> fst ` set (filter P db)) = (\<not> P kr)" by simp
qed

lemma cutoff_date_of_eq:
  "cutoff_date_of t d =
     (if abs d \<le> 999999999 \<and> datetime_min \<le> t - d * 86400000000
           \<and> t - d * 86400000000 \<le> datetime_max
      then Inr (t - d * 86400000000) else Inl OverflowError)"
  by (simp add: cutoff_date_of_def timedelta_days_def datetime_sub_def)

lemma delete_old_mails_cases:
  assumes "delete_old_mails cfg w db = (e, db', evs)"
  obtains (off) "retention_days cfg = 0" "e = None" "db' = db" "evs = []"
  | (overflow) err where "retention_days cfg \<noteq> 0"
      "cutoff_date_of (now w) (retention_days cfg) = Inl err" "e = Some err" "db' = db" "evs = []"
  | (none_due) c where "retention_days cfg \<noteq> 0"
      "cutoff_date_of (now w) (retention_days cfg) = Inr c" "mails_to_delete c db = []"
      "e = None" "db' = db" "evs = []"
  | (sweep) c where "retention_days cfg \<noteq> 0"
      "cutoff_date_of (now w) (retention_days cfg) = Inr c" "mails_to_delete c db \<noteq> []"
      "e = None" "sweep_session (sweep_pop w) (mails_to_delete c db) db = (db', evs)"
proof (cases "retention_days cfg = 0")
  case True
  with assms have "e = None" "db' = db" "evs = []" by (simp_all add: delete_old_mails_def)
  with True show thesis by (intro off) simp_all
next
  case False
  note nz = this
  show thesis
  proof (cases "cutoff_date_of (now w) (retention_days cfg)")
    case (Inl err)
    with assms nz have "e = Some err" "db' = db" "evs = []"
      by (simp_all add: delete_old_mails_def)
    with nz Inl show thesis by (intro overflow[of err]) simp_all
  next
    case (Inr c)
    show thesis
    proof (cases "mails_to_delete c db = []")
      case True
      with assms nz Inr have "e = None" "db' = db" "evs = []"
        by (simp_all add: delete_old_mails_def Let_def)
      with nz Inr True show thesis by (intro none_due[of c]) simp_all
    next
      case False
      obtain dbs evss where
        ss: "sweep_session (sweep_pop w) (mails_to_delete c db) db = (dbs, evss)"
        by (cases "sweep_session (sweep_pop w) (mails_to_delete c db) db")
      with assms nz Inr False have "e = None" "db' = dbs" "evs = evss"
        by (simp_all add: delete_old_mails_def Let_def)
      with nz Inr False ss show thesis by (intro sweep[of c]) simp_all
    qed
  qed
qed

lemma sweep_unselected:
  assumes "distinct (map fst db)" and "delete_old_mails cfg w db = (e, db', evs)"
    and "(u, r) \<in> set db"
    and "\<forall>c. cutoff_date_of (now w) (retention_days cfg) = Inr c
           \<longrightarrow> \<not> (forward_success r \<and> forwarded_at r < c)"
  shows "(u, r) \<in> set db' \<and> (\<forall>n. PopDele u n \<notin> set evs)"
  using assms(2)
proof (cases rule: delete_old_mails_cases)
  case off
  with assms(3) show ?thesis by simp
next
  case (overflow err)
  with assms(3) show ?thesis by simp
next
  case (none_due c)
  with assms(3) show ?thesis by simp
next
  case (sweep c)
  let ?sel = "mails_to_delete c db"
  from assms(4) sweep(2) have ns: "\<not> (forward_success r \<and> forwarded_at r < c)" by blast
  have nu: "u \<notin> fst ` set ?sel"
  proof
    assume "u \<in> fst ` set ?sel"
    then obtain r' where r': "(u, r') \<in> set ?sel" by force
    then have in': "(u, r') \<in> set db" and
      sel: "forward_success r' \<and> forwarded_at r' < c"
      by (simp_all add: mails_to_delete_def)
    from eq_key_imp_eq_value[OF assms(1) assms(3) in'] have "r = r'" .
    with sel ns show False by simp
  qed
  note f = sweep_session_facts[OF sweep(5)]
  from f have "db' = db \<or> db' = filter (\<lambda>kr. fst kr \<notin> fst ` set ?sel) db" by blast
  then have a: "(u, r) \<in> set db'"
  proof
    assume "db' = db"
    with assms(3) show ?thesis by simp
  next
    assume "db' = filter (\<lambda>kr. fst kr \<notin> fst ` set ?sel) db"
    with assms(3) nu show ?thesis by simp
  qed
  from f have k: "\<forall>e \<in> set evs. e = PopConnect \<or> e = PopQuit \<or> e = SweepError
              \<or> (\<exists>u n. e = PopDele u n \<and> u \<in> fst ` set ?sel)" by blast
  have b: "\<forall>n. PopDele u n \<notin> set evs"
  proof (intro allI notI)
    fix n assume "PopDele u n \<in> set evs"
    with k have "PopDele u n = PopConnect \<or> PopDele u n = PopQuit \<or> PopDele u n = SweepError
              \<or> (\<exists>u' n'. PopDele u n = PopDele u' n' \<and> u' \<in> fst ` set ?sel)" by blast
    then have "u \<in> fst ` set ?sel" by simp
    with nu show False by simp
  qed
  from a b show ?thesis by (intro conjI)
qed

lemma sweep_completed:
  assumes "distinct (map fst db)" and "delete_old_mails cfg w db = (e, db', evs)"
    and "retention_days cfg \<noteq> 0" and "cutoff_date_of (now w) (retention_days cfg) = Inr c"
    and "SweepError \<notin> set evs"
  shows "db' = filter (\<lambda>kr. \<not> (forward_success (snd kr) \<and> forwarded_at (snd kr) < c)) db
       \<and> (\<forall>items u r n. uidl_list (sweep_pop w) = Some items \<and> (u, r) \<in> set db
             \<and> forward_success r \<and> forwarded_at r < c
             \<and> map_of (server_uidls items []) u = Some n \<longrightarrow> PopDele u n \<in> set evs)"
proof -
  let ?P = "\<lambda>kr. forward_success (snd kr) \<and> forwarded_at (snd kr) < c"
  let ?sel = "mails_to_delete c db"
  have sel: "?sel = filter ?P db" by (simp add: mails_to_delete_def)
  have sk: "filter (\<lambda>kr. fst kr \<notin> fst ` set ?sel) db = filter (\<lambda>kr. \<not> ?P kr) db"
    unfolding sel by (rule selected_keys[OF assms(1)])
  from assms(2) show ?thesis
  proof (cases rule: delete_old_mails_cases)
    case off
    with assms(3) show ?thesis by simp
  next
    case (overflow err)
    with assms(4) show ?thesis by simp
  next
    case (none_due c')
    from none_due(2) assms(4) have cc: "c' = c" by simp
    from none_due(3) cc have em: "?sel = []" by simp
    then have "filter (\<lambda>kr. fst kr \<notin> fst ` set ?sel) db = db" by simp
    with sk none_due(5) have a: "db' = filter (\<lambda>kr. \<not> ?P kr) db" by simp
    have "\<forall>u r. (u, r) \<in> set db \<longrightarrow> \<not> ?P (u, r)"
    proof (intro allI impI)
      fix u r assume "(u, r) \<in> set db"
      show "\<not> ?P (u, r)"
      proof
        assume "?P (u, r)"
        with \<open>(u, r) \<in> set db\<close> have "(u, r) \<in> set (filter ?P db)" by simp
        with em sel show False by simp
      qed
    qed
    then have b: "\<forall>items u r n. uidl_list (sweep_pop w) = Some items \<and> (u, r) \<in> set db
             \<and> forward_success r \<and> forwarded_at r < c
             \<and> map_of (server_uidls items []) u = Some n \<longrightarrow> PopDele u n \<in> set evs"
      by auto
    from a b show ?thesis by (intro conjI)
  next
    case (sweep c')
    from sweep(2) assms(4) have cc: "c' = c" by simp
    note f = sweep_session_facts[OF sweep(5)[unfolded cc]]
    from f assms(5) have
      c1: "db' = filter (\<lambda>kr. fst kr \<notin> fst ` set ?sel) db" and
      c2: "\<forall>items u n. uidl_list (sweep_pop w) = Some items \<and> u \<in> fst ` set ?sel
                    \<and> map_of (server_uidls items []) u = Some n \<longrightarrow> PopDele u n \<in> set evs"
      by blast+
    from c1 sk have a: "db' = filter (\<lambda>kr. \<not> ?P kr) db" by simp
    have b: "\<forall>items u r n. uidl_list (sweep_pop w) = Some items \<and> (u, r) \<in> set db
             \<and> forward_success r \<and> forwarded_at r < c
             \<and> map_of (server_uidls items []) u = Some n \<longrightarrow> PopDele u n \<in> set evs"
    proof (intro allI impI, elim conjE)
      fix items u r n
      assume h: "uidl_list (sweep_pop w) = Some items" "(u, r) \<in> set db" "forward_success r"
        "forwarded_at r < c" "map_of (server_uidls items []) u = Some n"
      from h(2,3,4) have "(u, r) \<in> set ?sel" by (simp add: mails_to_delete_def)
      then have "u \<in> fst ` set ?sel" by force
      with c2 h(1,5) show "PopDele u n \<in> set evs" by blast
    qed
    from a b show ?thesis by (intro conjI)
  qed
qed

lemma sweep_raises:
  assumes "delete_old_mails cfg w db = (e, db', evs)"
    and "retention_days cfg \<noteq> 0" and "cutoff_date_of (now w) (retention_days cfg) = Inl err"
  shows "e = Some err \<and> db' = db \<and> evs = []"
  using assms by (simp add: delete_old_mails_def)

lemma sweep_returns:
  assumes "delete_old_mails cfg w db = (e, db', evs)"
    and "cutoff_date_of (now w) (retention_days cfg) = Inr c"
  shows "e = None"
  using assms(1)
proof (cases rule: delete_old_mails_cases)
  case (overflow err)
  with assms(2) show ?thesis by simp
qed simp_all

section \<open>Runs of the scenarios\<close>

lemma resume_statements:
  "process_once Statements_only plain_config two_mail_world [(''u1'', known_row)]
     = ([(''u1'', known_row)], [PopConnect, PopRetr ''u2'' 2, PopQuit], Inl ValueError)
   \<and> daemon_cycle Statements_only plain_config two_mail_world [(''u1'', known_row)]
     = ([(''u1'', known_row),
         (''u2'', \<lparr>forwarded_at = 1000, from_addr = ''sender@test.jp'', subject = ''Subject'',
                   forward_success = True\<rparr>)],
        [PopConnect, PopRetr ''u2'' 2, PopQuit, Forward ''u2'' True, Save ''u2'' True])"
  by code_simp

lemma resume_guarded:
  "process_once Guarded plain_config two_mail_world [(''u1'', known_row)]
     = ([(''u1'', known_row)], [PopConnect, PopRetr ''u2'' 2, PopQuit], Inl ValueError)
   \<and> daemon_cycle Guarded plain_config two_mail_world [(''u1'', known_row)]
     = ([(''u1'', known_row),
         (''u2'', \<lparr>forwarded_at = 1000, from_addr = ''sender@test.jp'', subject = ''Subject'',
                   forward_success = True\<rparr>)],
        [PopConnect, PopRetr ''u2'' 2, PopQuit, Forward ''u2'' True, Save ''u2'' True])"
  by code_simp

lemma two_new_statements:
  "process_once Statements_only plain_config two_mail_world [] =
     ([], [PopConnect, PopRetr ''u1'' 1, PopRetr ''u2'' 2, PopQuit], Inl ValueError)"
  by code_simp

lemma two_new_guarded:
  "process_once Guarded plain_config two_mail_world [] =
     ([], [PopConnect, PopRetr ''u1'' 1, PopRetr ''u2'' 2, PopQuit], Inl ValueError)"
  by code_simp

lemma undated_statements:
  "fetch_new_mails Statements_only cutoff_config two_mail_world []
     = ([Tuple4 ''u1'' ''body'' ''sender@test.jp'' (SubjectStr ''Subject''),
         Tuple4 ''u2'' ''body'' ''sender@test.jp'' (SubjectStr ''Subject'')],
        [], [PopConnect, PopRetr ''u1'' 1, PopRetr ''u2'' 2, PopQuit])
   \<and> process_once Statements_only cutoff_config two_mail_world []
     = ([], [PopConnect, PopRetr ''u1'' 1, PopRetr ''u2'' 2, PopQuit], Inl ValueError)"
  by code_simp

lemma undated_guarded:
  "fetch_new_mails Guarded cutoff_config two_mail_world []
     = ([Tuple4 ''u1'' ''body'' ''sender@test.jp'' (SubjectStr ''Subject''),
         Tuple4 ''u2'' ''body'' ''sender@test.jp'' (SubjectStr ''Subject'')],
        [], [PopConnect, PopRetr ''u1'' 1, PopRetr ''u2'' 2, PopQuit])
   \<and> process_once Guarded cutoff_config two_mail_world []
     = ([], [PopConnect, PopRetr ''u1'' 1, PopRetr ''u2'' 2, PopQuit], Inl ValueError)"
  by code_simp

lemma header_statements:
  "process_daemon Statements_only plain_config [header_refusing_world, header_refusing_world] []
     = ([], [PopConnect, PopRetr ''u1'' 1, PopQuit,
             Forward ''u1'' False, SaveRaised ''u1'' False, CycleError,
             PopConnect, PopRetr ''u1'' 1, PopQuit,
             Forward ''u1'' False, SaveRaised ''u1'' False, CycleError])"
  by code_simp

lemma header_guarded:
  "process_daemon Guarded plain_config [header_refusing_world, header_refusing_world] []
     = ([], [PopConnect, PopRetr ''u1'' 1, PopQuit,
             Forward ''u1'' False, SaveRaised ''u1'' False, CycleError,
             PopConnect, PopRetr ''u1'' 1, PopQuit,
             Forward ''u1'' False, SaveRaised ''u1'' False, CycleError])"
  by code_simp

lemma known_run:
  "fetch_new_mails Statements_only plain_config two_mail_world [(''u1'', failed_row)]
     = ([Tuple4 ''u2'' ''body'' ''sender@test.jp'' (SubjectStr ''Subject'')],
        [(''u1'', failed_row)], [PopConnect, PopRetr ''u2'' 2, PopQuit])"
  by code_simp

lemma first_run:
  "reconcile_daemon Statements_only plain_config two_mail_world []
     = ([(''u1'', \<lparr>forwarded_at = 1000, from_addr = ''sender@test.jp'', subject = ''Subject'',
                   forward_success = True\<rparr>),
         (''u2'', \<lparr>forwarded_at = 1000, from_addr = ''sender@test.jp'', subject = ''Subject'',
                   forward_success = True\<rparr>)],
        [PopConnect, PopRetr ''u1'' 1, PopRetr ''u2'' 2, PopQuit,
         Forward ''u1'' True, Save ''u1'' True, Forward ''u2'' True, Save ''u2'' True])"
  by code_simp

lemma aborted_statements:
  "uidl_list (fetch_pop flaky_world) = uidl_list (fetch_pop two_mail_world)
   \<and> reconcile_daemon Statements_only plain_config flaky_world []
     = ([(''u1'', \<lparr>forwarded_at = 1000, from_addr = ''sender@test.jp'', subject = ''Subject'',
                   forward_success = True\<rparr>)],
        [PopConnect, PopRetr ''u1'' 1, PopRetr ''u2'' 2, FetchError,
         Forward ''u1'' True, Save ''u1'' True])
   \<and> reconcile_daemon Statements_only plain_config two_mail_world
       (fst (reconcile_daemon Statements_only plain_config flaky_world []))
     = ([(''u1'', \<lparr>forwarded_at = 1000, from_addr = ''sender@test.jp'', subject = ''Subject'',
                   forward_success = True\<rparr>),
         (''u2'', \<lparr>forwarded_at = 1000, from_addr = ''sender@test.jp'', subject = ''Subject'',
                   forward_success = True\<rparr>)],
        [PopConnect, PopRetr ''u2'' 2, PopQuit, Forward ''u2'' True, Save ''u2'' True])"
  by code_simp

lemma aborted_guarded:
  "uidl_list (fetch_pop flaky_world) = uidl_list (fetch_pop two_mail_world)
   \<and> reconcile_daemon Guarded plain_config flaky_world []
     = ([(''u1'', \<lparr>forwarded_at = 1000, from_addr = ''sender@test.jp'', subject = ''Subject'',
                   forward_success = True\<rparr>)],
        [PopConnect, PopRetr ''u1'' 1, PopRetr ''u2'' 2, FetchError,
         Forward ''u1'' True, Save ''u1'' True])
   \<and> reconcile_daemon Guarded plain_config two_mail_world
       (fst (reconcile_daemon Guarded plain_config flaky_world []))
     = ([(''u1'', \<lparr>forwarded_at = 1000, from_addr = ''sender@test.jp'', subject = ''Subject'',
                   forward_success = True\<rparr>),
         (''u2'', \<lparr>forwarded_at = 1000, from_addr = ''sender@test.jp'', subject = ''Subject'',
                   forward_success = True\<rparr>)],
        [PopConnect, PopRetr ''u2'' 2, PopQuit, Forward ''u2'' True, Save ''u2'' True])"
  by code_simp

lemma sweep_run:
  "delete_old_mails (retention_config None) sweep_world sweep_ledger
     = (None,
        [(''u2'', \<lparr>forwarded_at = 3456000000000, from_addr = ''a@test.jp'', subject = ''young'',
                   forward_success = True\<rparr>),
         (''u3'', \<lparr>forwarded_at = 0, from_addr = ''a@test.jp'', subject = ''old failed'',
                   forward_success = False\<rparr>)],
        [PopConnect, PopDele ''u1'' 1, PopQuit])"
  by code_simp

lemma negative_run:
  "delete_old_mails (retention_config (Some (- 1))) sweep_world fresh_ledger
     = (None,
        [(''u3'', \<lparr>forwarded_at = 0, from_addr = ''a@test.jp'', subject = ''old failed'',
                   forward_success = False\<rparr>)],
        [PopConnect, PopDele ''u1'' 1, PopQuit])"
  by code_simp

lemma negative_overflow_statements:
  "mail_retention_days (retention_config (Some (- 1000000000))) = Some (- 1000000000)
   \<and> filter (\<lambda>kr. forward_success (snd kr)) fresh_ledger
       = [(''u1'', \<lparr>forwarded_at = 3456000000000, from_addr = ''a@test.jp'',
                     subject = ''fresh'', forward_success = True\<rparr>)]
   \<and> delete_old_mails (retention_config (Some (- 1000000000))) sweep_world fresh_ledger
       = (Some OverflowError, fresh_ledger, [])
   \<and> daemon_cycle Statements_only (retention_config (Some (- 1000000000))) sweep_world fresh_ledger
       = (fresh_ledger, [CycleError])"
  by code_simp

lemma negative_overflow_guarded:
  "mail_retention_days (retention_config (Some (- 1000000000))) = Some (- 1000000000)
   \<and> filter (\<lambda>kr. forward_success (snd kr)) fresh_ledger
       = [(''u1'', \<lparr>forwarded_at = 3456000000000, from_addr = ''a@test.jp'',
                     subject = ''fresh'', forward_success = True\<rparr>)]
   \<and> delete_old_mails (retention_config (Some (- 1000000000))) sweep_world fresh_ledger
       = (Some OverflowError, fresh_ledger, [])
   \<and> daemon_cycle Guarded (retention_config (Some (- 1000000000))) sweep_world fresh_ledger
       = (fresh_ledger, [CycleError])"
  by code_simp

section \<open>Recording order and resumed runs\<close>

text \<open>
  C1. A batch of two messages was interrupted after the outcome of \<open>u1\<close> had been
  recorded and before \<open>u2\<close> was processed: the ledger holds \<open>u1\<close>, the server lists
  \<open>u1\<close> and \<open>u2\<close>. Run again, \<^verbatim>\<open>process_once\<close> retrieves \<open>u2\<close> and then stops
  with \<^verbatim>\<open>ValueError\<close> where its loop unpacks five names from the four-element tuple
  of \<^verbatim>\<open>_fetch_new_mails\<close>: \<open>u2\<close> is not submitted and no row is written for it. The
  body of the loop, which submits a message and records the outcome right after, is never
  entered. (One cycle of \<^verbatim>\<open>process_daemon\<close>, whose loop unpacks four names, submits
  \<open>u2\<close> on the same input, records it right after the attempt and leaves \<open>u1\<close> alone.)
  No start date is set, and the result is the same under either reading.
\<close>

theorem process_once_resume:
  "process_once rd plain_config two_mail_world [(''u1'', known_row)]
     = ([(''u1'', known_row)], [PopConnect, PopRetr ''u2'' 2, PopQuit], Inl ValueError)
   \<and> daemon_cycle rd plain_config two_mail_world [(''u1'', known_row)]
     = ([(''u1'', known_row),
         (''u2'', \<lparr>forwarded_at = 1000, from_addr = ''sender@test.jp'', subject = ''Subject'',
                   forward_success = True\<rparr>)],
        [PopConnect, PopRetr ''u2'' 2, PopQuit, Forward ''u2'' True, Save ''u2'' True])"
proof (cases rd)
  case Statements_only
  show ?thesis unfolding Statements_only by (rule resume_statements)
next
  case Guarded
  show ?thesis unfolding Guarded by (rule resume_guarded)
qed

section \<open>Known identifiers are not new\<close>

text \<open>
  C2. In a poll whose \<^verbatim>\<open>UIDL\<close> listing is \<open>items\<close>, the identifiers treated as new
  are those of the listing that are not keys of the ledger, whatever the success flag of
  their rows: the loop of the poll runs over an enumeration of exactly that set, it calls
  \<^verbatim>\<open>retr\<close> for a prefix of the enumeration, for all of it when the poll logs no error,
  and every tuple it returns is for one of them; the relay loops of the two drivers
  retrieve nothing more. For an identifier that is a key of the ledger, no \<^verbatim>\<open>retr\<close> is
  issued and no tuple returned, no relay is attempted by either driver, and its row is
  left as it is.
\<close>

theorem known_uidls_not_new:
  assumes "iterates_sets (set_order w)"
    and "uidl_list (fetch_pop w) = Some items"
    and "fetch_new_mails rd cfg w db = (ms, db2, evs2)"
    and "reconcile_daemon rd cfg w db = (db3, evs3)"
    and "reconcile_once rd cfg w db = (db4, evs4, r)"
  shows "set (new_uidls w (server_uidls items []) db) = snd ` set items - get_retrieved_uidls db
       \<and> (\<exists>k. retrieved evs2 = take k (new_uidls w (server_uidls items []) db))
       \<and> (FetchError \<notin> set evs2 \<longrightarrow> retrieved evs2 = new_uidls w (server_uidls items []) db)
       \<and> retrieved evs3 = retrieved evs2 \<and> retrieved evs4 = retrieved evs2
       \<and> tuple_uidl ` set ms \<subseteq> snd ` set items - get_retrieved_uidls db
       \<and> (\<forall>u \<in> get_retrieved_uidls db.
            u \<notin> set (new_uidls w (server_uidls items []) db)
          \<and> tuples_of u ms = [] \<and> evs_of u evs2 = [] \<and> evs_of u evs3 = [] \<and> evs_of u evs4 = []
          \<and> rows_of u db3 = rows_of u db \<and> rows_of u db4 = rows_of u db)"
proof -
  note s = new_uidls_listed[OF assms(1), of items db]
  note fr = fetch_retrieved[OF assms(3,1,2)]
  from fr have p: "\<exists>k. retrieved evs2 = take k (new_uidls w (server_uidls items []) db)"
    by blast
  from fr have q: "FetchError \<notin> set evs2
      \<longrightarrow> retrieved evs2 = new_uidls w (server_uidls items []) db" by blast
  note r3 = rd_retrieved[OF assms(4,1,3)]
  from ro_shape[OF assms(5,1)] assms(3) have e4: "evs4 = evs2" "db4 = db2" by auto
  then have r4: "retrieved evs4 = retrieved evs2" by simp
  from fetch_tuples[OF assms(3,1)] assms(2)
  have tu: "tuple_uidl ` set ms \<subseteq> snd ` set items - get_retrieved_uidls db" by blast
  have kn: "\<forall>u \<in> get_retrieved_uidls db.
            u \<notin> set (new_uidls w (server_uidls items []) db)
          \<and> tuples_of u ms = [] \<and> evs_of u evs2 = [] \<and> evs_of u evs3 = [] \<and> evs_of u evs4 = []
          \<and> rows_of u db3 = rows_of u db \<and> rows_of u db4 = rows_of u db"
  proof
    fix u assume u: "u \<in> get_retrieved_uidls db"
    from u have "u \<notin> set (new_uidls w (server_uidls items []) db)" unfolding s by simp
    with fetch_known[OF assms(3,1) u] rd_known[OF assms(4,1) u] e4
    show "u \<notin> set (new_uidls w (server_uidls items []) db)
          \<and> tuples_of u ms = [] \<and> evs_of u evs2 = [] \<and> evs_of u evs3 = [] \<and> evs_of u evs4 = []
          \<and> rows_of u db3 = rows_of u db \<and> rows_of u db4 = rows_of u db"
      by simp
  qed
  from s p q r3 r4 tu kn show ?thesis by (intro conjI)
qed

text \<open>
  The ledger holds \<open>u1\<close> with \<open>forward_success = False\<close> and the server lists \<open>u1\<close>
  and \<open>u2\<close>: only \<open>u2\<close> is new and retrieved, and nothing is done about \<open>u1\<close>.
\<close>

theorem known_uidls_not_new_witness:
  "iterates_sets (set_order two_mail_world)
   \<and> uidl_list (fetch_pop two_mail_world) = Some [(1, ''u1''), (2, ''u2'')]
   \<and> set (new_uidls two_mail_world (server_uidls [(1, ''u1''), (2, ''u2'')] []) [(''u1'', failed_row)])
       = {''u2''}
   \<and> retrieved (snd (reconcile_daemon Statements_only plain_config two_mail_world
                        [(''u1'', failed_row)]))
       = new_uidls two_mail_world (server_uidls [(1, ''u1''), (2, ''u2'')] []) [(''u1'', failed_row)]
   \<and> evs_of ''u1'' (snd (reconcile_daemon Statements_only plain_config two_mail_world
                           [(''u1'', failed_row)])) = []
   \<and> tuples_of ''u1'' (fst (fetch_new_mails Statements_only plain_config two_mail_world
                              [(''u1'', failed_row)])) = []"
proof -
  let ?db = "[(''u1'', failed_row)]"
  let ?F = "fetch_new_mails Statements_only plain_config two_mail_world ?db"
  let ?D = "reconcile_daemon Statements_only plain_config two_mail_world ?db"
  let ?O = "reconcile_once Statements_only plain_config two_mail_world ?db"
  have h1: "iterates_sets (set_order two_mail_world)"
    by (simp add: two_mail_world_def iterates_sets_def)
  have h2: "uidl_list (fetch_pop two_mail_world) = Some [(1, ''u1''), (2, ''u2'')]"
    by (simp add: two_mail_world_def two_mail_pop_def)
  have h3: "?F = (fst ?F, fst (snd ?F), snd (snd ?F))" by simp
  have h4: "?D = (fst ?D, snd ?D)" by simp
  have h5: "?O = (fst ?O, fst (snd ?O), snd (snd ?O))" by simp
  note t = known_uidls_not_new[OF h1 h2 h3 h4 h5]
  let ?N = "new_uidls two_mail_world (server_uidls [(1, ''u1''), (2, ''u2'')] []) ?db"
  from t have t1: "set ?N = snd ` set [(1::nat, ''u1''), (2, ''u2'')] - get_retrieved_uidls ?db"
    by (elim conjE)
  from t have t3: "FetchError \<notin> set (snd (snd ?F)) \<longrightarrow> retrieved (snd (snd ?F)) = ?N"
    by (elim conjE)
  from t have t4: "retrieved (snd ?D) = retrieved (snd (snd ?F))"
    by (elim conjE)
  from t have t7: "\<forall>u \<in> get_retrieved_uidls ?db.
            u \<notin> set ?N
          \<and> tuples_of u (fst ?F) = [] \<and> evs_of u (snd (snd ?F)) = [] \<and> evs_of u (snd ?D) = []
          \<and> evs_of u (fst (snd ?O)) = []
          \<and> rows_of u (fst ?D) = rows_of u ?db \<and> rows_of u (fst ?O) = rows_of u ?db"
    by (elim conjE)
  have nf: "FetchError \<notin> set (snd (snd ?F))" by (simp add: known_run)
  have k: "''u1'' \<in> get_retrieved_uidls ?db" by (simp add: get_retrieved_uidls_def)
  have g: "snd ` set [(1::nat, ''u1''), (2, ''u2'')] - get_retrieved_uidls ?db = {''u2''}"
    by (auto simp: get_retrieved_uidls_def)
  from t1 have a: "set ?N = {''u2''}" unfolding g .
  from t3 nf have "retrieved (snd (snd ?F)) = ?N" by (rule mp)
  with t4 have b: "retrieved (snd ?D) = ?N" by (rule trans)
  note u1 = bspec[OF t7 k]
  from u1 have c: "evs_of ''u1'' (snd ?D) = []" by (elim conjE)
  from u1 have d: "tuples_of ''u1'' (fst ?F) = []" by (elim conjE)
  from h1 h2 a b c d show ?thesis by (intro conjI)
qed

section \<open>The start-date filter\<close>


section \<open>Messages without a usable date\<close>

text \<open>
  C4. A start date is configured and the two new messages carry no Date header. The poll
  puts both on the list of messages to relay. \<^verbatim>\<open>process_once\<close> then stops with
  \<^verbatim>\<open>ValueError\<close> where its loop unpacks five names from the first four-element tuple:
  neither message is relayed, and no row is written.
\<close>

theorem process_once_undated_mail:
  "hdr_date plain_mail = DateMissing
   \<and> start_date cutoff_config = Some (Aware 864000000000 32400000000)
   \<and> fetch_new_mails rd cutoff_config two_mail_world []
     = ([Tuple4 ''u1'' ''body'' ''sender@test.jp'' (SubjectStr ''Subject''),
         Tuple4 ''u2'' ''body'' ''sender@test.jp'' (SubjectStr ''Subject'')],
        [], [PopConnect, PopRetr ''u1'' 1, PopRetr ''u2'' 2, PopQuit])
   \<and> process_once rd cutoff_config two_mail_world []
     = ([], [PopConnect, PopRetr ''u1'' 1, PopRetr ''u2'' 2, PopQuit], Inl ValueError)"
proof -
  have a: "hdr_date plain_mail = DateMissing" by (simp add: plain_mail_def)
  have b: "start_date cutoff_config = Some (Aware 864000000000 32400000000)"
    by (simp add: cutoff_config_def)
  have c: "fetch_new_mails rd cutoff_config two_mail_world []
     = ([Tuple4 ''u1'' ''body'' ''sender@test.jp'' (SubjectStr ''Subject''),
         Tuple4 ''u2'' ''body'' ''sender@test.jp'' (SubjectStr ''Subject'')],
        [], [PopConnect, PopRetr ''u1'' 1, PopRetr ''u2'' 2, PopQuit])
   \<and> process_once rd cutoff_config two_mail_world []
     = ([], [PopConnect, PopRetr ''u1'' 1, PopRetr ''u2'' 2, PopQuit], Inl ValueError)"
  proof (cases rd)
    case Statements_only
    show ?thesis unfolding Statements_only by (rule undated_statements)
  next
    case Guarded
    show ?thesis unfolding Guarded by (rule undated_guarded)
  qed
  from a b c show ?thesis by (intro conjI) simp_all
qed

section \<open>A failed relay and the ledger write after it\<close>

text \<open>
  C5. The Subject header of the one message holds raw 8-bit bytes, so its subject is an
  \<^verbatim>\<open>email.header.Header\<close>, and the relay refuses the message. The daemon attempts the
  relay, the attempt fails, and the ledger write that follows raises
  \<^verbatim>\<open>ProgrammingError\<close>, which is caught at the cycle boundary: no row is written. In
  the next cycle the identifier is new again and the relay is attempted again.
\<close>

theorem failed_relay_retried:
  "subject_of header_mail = SubjectHeader
   \<and> forward_mail plain_config (smtp header_refusing_world) (mail_data header_mail) = False
   \<and> process_daemon rd plain_config [header_refusing_world, header_refusing_world] []
     = ([], [PopConnect, PopRetr ''u1'' 1, PopQuit,
             Forward ''u1'' False, SaveRaised ''u1'' False, CycleError,
             PopConnect, PopRetr ''u1'' 1, PopQuit,
             Forward ''u1'' False, SaveRaised ''u1'' False, CycleError])"
proof -
  have a: "subject_of header_mail = SubjectHeader"
    by (simp add: subject_of_def header_mail_def)
  have b: "forward_mail plain_config (smtp header_refusing_world) (mail_data header_mail) = False"
    by (simp add: forward_mail_def plain_config_def header_refusing_world_def refusing_relay_def)
  have c: "process_daemon rd plain_config [header_refusing_world, header_refusing_world] []
     = ([], [PopConnect, PopRetr ''u1'' 1, PopQuit,
             Forward ''u1'' False, SaveRaised ''u1'' False, CycleError,
             PopConnect, PopRetr ''u1'' 1, PopQuit,
             Forward ''u1'' False, SaveRaised ''u1'' False, CycleError])"
  proof (cases rd)
    case Statements_only
    show ?thesis unfolding Statements_only by (rule header_statements)
  next
    case Guarded
    show ?thesis unfolding Guarded by (rule header_guarded)
  qed
  from a b c show ?thesis by (intro conjI)
qed

section \<open>Reconciling twice\<close>

text \<open>
  C6. A reconciliation of the daemon logged no error, neither in its poll nor in its
  relay loop, and every ledger write it made returned. A second reconciliation, under
  any configuration, against a server listing the same identifiers then finds no new
  identifier, retrieves and relays nothing and leaves the ledger as it is.
\<close>

theorem second_run_relays_nothing:
  assumes "iterates_sets (set_order w)" and "iterates_sets (set_order w2)"
    and "uidl_list (fetch_pop w) = Some items" and "uidl_list (fetch_pop w2) = Some items2"
    and "snd ` set items2 = snd ` set items"
    and "reconcile_daemon rd cfg w db = (db1, evs1)"
    and "FetchError \<notin> set evs1" and "CycleError \<notin> set evs1"
    and "\<forall>u ok. SaveRaised u ok \<notin> set evs1"
    and "reconcile_daemon rd2 cfg2 w2 db1 = (db2, evs2)"
  shows "new_uidls w2 (server_uidls items2 []) db1 = [] \<and> db2 = db1
       \<and> filter (\<lambda>e. ev_uidl e \<noteq> None) evs2 = []"
proof -
  from rd_keys[OF assms(6,1,7,8,9,3)] assms(5)
  have "snd ` set items2 \<subseteq> get_retrieved_uidls db1" by simp
  note nn = nothing_new[OF assms(2) this]
  from poll_nothing_new[OF nn assms(4), of rd2 cfg2] obtain evs where
    f: "fetch_new_mails rd2 cfg2 w2 db1 = ([], db1, evs)" and
    e: "filter (\<lambda>e. ev_uidl e \<noteq> None) evs = []" by blast
  from f assms(10) have "db2 = db1" "evs2 = evs" by (simp_all add: reconcile_daemon_def)
  with nn e show ?thesis by simp
qed

text \<open>
  Two reconciliations in a row on the server with \<open>u1\<close> and \<open>u2\<close>.
\<close>

theorem second_run_relays_nothing_witness:
  "FetchError \<notin> set (snd (reconcile_daemon Statements_only plain_config two_mail_world []))
   \<and> CycleError \<notin> set (snd (reconcile_daemon Statements_only plain_config two_mail_world []))
   \<and> filter (\<lambda>e. ev_uidl e \<noteq> None)
       (snd (reconcile_daemon Statements_only plain_config two_mail_world
               (fst (reconcile_daemon Statements_only plain_config two_mail_world [])))) = []
   \<and> fst (reconcile_daemon Statements_only plain_config two_mail_world
               (fst (reconcile_daemon Statements_only plain_config two_mail_world [])))
       = fst (reconcile_daemon Statements_only plain_config two_mail_world [])"
proof -
  let ?X = "reconcile_daemon Statements_only plain_config two_mail_world []"
  let ?Y = "reconcile_daemon Statements_only plain_config two_mail_world (fst ?X)"
  have h1: "iterates_sets (set_order two_mail_world)"
    by (simp add: two_mail_world_def iterates_sets_def)
  have h3: "uidl_list (fetch_pop two_mail_world) = Some [(1, ''u1''), (2, ''u2'')]"
    by (simp add: two_mail_world_def two_mail_pop_def)
  have h5: "snd ` set [(1::nat, ''u1''), (2, ''u2'')] = snd ` set [(1::nat, ''u1''), (2, ''u2'')]"
    by simp
  have x: "?X = (fst ?X, snd ?X)" by simp
  have y: "?Y = (fst ?Y, snd ?Y)" by simp
  have nf: "FetchError \<notin> set (snd ?X)" by (simp add: first_run)
  have nc: "CycleError \<notin> set (snd ?X)" by (simp add: first_run)
  have ns: "\<forall>u ok. SaveRaised u ok \<notin> set (snd ?X)" by (simp add: first_run)
  note t = second_run_relays_nothing[OF h1 h1 h3 h3 h5 x nf nc ns y]
  from t have a: "filter (\<lambda>e. ev_uidl e \<noteq> None) (snd ?Y) = []" by (elim conjE)
  from t have b: "fst ?Y = fst ?X" by (elim conjE)
  from nf nc a b show ?thesis by (intro conjI)
qed

text \<open>
  Without that hypothesis: the first reconciliation returns normally although \<^verbatim>\<open>retr\<close>
  raised for \<open>u2\<close> and ended its poll; \<open>u1\<close> is relayed and recorded, \<open>u2\<close> is not.
  The second reconciliation, against the same listing, relays \<open>u2\<close>.
\<close>

theorem second_run_after_aborted_poll:
  "\<forall>rd. uidl_list (fetch_pop flaky_world) = uidl_list (fetch_pop two_mail_world)
   \<and> reconcile_daemon rd plain_config flaky_world []
     = ([(''u1'', \<lparr>forwarded_at = 1000, from_addr = ''sender@test.jp'', subject = ''Subject'',
                   forward_success = True\<rparr>)],
        [PopConnect, PopRetr ''u1'' 1, PopRetr ''u2'' 2, FetchError,
         Forward ''u1'' True, Save ''u1'' True])
   \<and> reconcile_daemon rd plain_config two_mail_world
       (fst (reconcile_daemon rd plain_config flaky_world []))
     = ([(''u1'', \<lparr>forwarded_at = 1000, from_addr = ''sender@test.jp'', subject = ''Subject'',
                   forward_success = True\<rparr>),
         (''u2'', \<lparr>forwarded_at = 1000, from_addr = ''sender@test.jp'', subject = ''Subject'',
                   forward_success = True\<rparr>)],
        [PopConnect, PopRetr ''u2'' 2, PopQuit, Forward ''u2'' True, Save ''u2'' True])"
proof
  fix rd
  show "uidl_list (fetch_pop flaky_world) = uidl_list (fetch_pop two_mail_world)
   \<and> reconcile_daemon rd plain_config flaky_world []
     = ([(''u1'', \<lparr>forwarded_at = 1000, from_addr = ''sender@test.jp'', subject = ''Subject'',
                   forward_success = True\<rparr>)],
        [PopConnect, PopRetr ''u1'' 1, PopRetr ''u2'' 2, FetchError,
         Forward ''u1'' True, Save ''u1'' True])
   \<and> reconcile_daemon rd plain_config two_mail_world
       (fst (reconcile_daemon rd plain_config flaky_world []))
     = ([(''u1'', \<lparr>forwarded_at = 1000, from_addr = ''sender@test.jp'', subject = ''Subject'',
                   forward_success = True\<rparr>),
         (''u2'', \<lparr>forwarded_at = 1000, from_addr = ''sender@test.jp'', subject = ''Subject'',
                   forward_success = True\<rparr>)],
        [PopConnect, PopRetr ''u2'' 2, PopQuit, Forward ''u2'' True, Save ''u2'' True])"
  proof (cases rd)
    case Statements_only
    show ?thesis unfolding Statements_only by (rule aborted_statements)
  next
    case Guarded
    show ?thesis unfolding Guarded by (rule aborted_guarded)
  qed
qed

section \<open>What the retention sweep selects\<close>

text \<open>
  C7. Let the window be \<^verbatim>\<open>mail_retention_days\<close>, 30 when the key is absent, and \<open>c\<close> be
  now minus the window in days. With a window of 0 the sweep does nothing: no session is
  opened and the ledger is returned as it is. With another window for which \<open>c\<close> is not
  a \<^verbatim>\<open>datetime\<close> (the magnitude of the window exceeds 999999999 days, or \<open>c\<close> lies
  outside the years 1 to 9999), line 557 raises \<^verbatim>\<open>OverflowError\<close> before anything is
  selected; the exception leaves the sweep and the ledger is untouched. Otherwise the
  sweep returns; a row that is not forwarded successfully, or whose \<^verbatim>\<open>forwarded_at\<close> is
  not strictly earlier than \<open>c\<close>, is never removed and no \<^verbatim>\<open>dele\<close> is issued for it;
  and when the sweep logs no error, the rows removed are exactly those with
  \<open>forward_success\<close> and \<^verbatim>\<open>forwarded_at\<close> strictly earlier than \<open>c\<close>, each deleted
  from the mailbox when the server still lists it. (The keys of the ledger are distinct:
  \<^verbatim>\<open>uidl\<close> is the primary key.)
\<close>

theorem retention_sweep:
  assumes "distinct (map fst db)" and "delete_old_mails cfg w db = (e, db', evs)"
    and "window = (case mail_retention_days cfg of None \<Rightarrow> 30 | Some d \<Rightarrow> d)"
    and "c = now w - window * 86400000000"
  shows "(window = 0 \<longrightarrow> e = None \<and> db' = db \<and> evs = [])
       \<and> (window \<noteq> 0
            \<and> \<not> (abs window \<le> 999999999 \<and> datetime_min \<le> c \<and> c \<le> datetime_max)
          \<longrightarrow> e = Some OverflowError \<and> db' = db \<and> evs = [])
       \<and> (window \<noteq> 0 \<and> abs window \<le> 999999999 \<and> datetime_min \<le> c \<and> c \<le> datetime_max
          \<longrightarrow> e = None
            \<and> (\<forall>u r. (u, r) \<in> set db \<and> \<not> (forward_success r \<and> forwarded_at r < c)
                  \<longrightarrow> (u, r) \<in> set db' \<and> (\<forall>n. PopDele u n \<notin> set evs))
            \<and> (SweepError \<notin> set evs \<longrightarrow>
                  db' = filter (\<lambda>kr. \<not> (forward_success (snd kr) \<and> forwarded_at (snd kr) < c)) db
                \<and> (\<forall>items u r n. uidl_list (sweep_pop w) = Some items \<and> (u, r) \<in> set db
                      \<and> forward_success r \<and> forwarded_at r < c
                      \<and> map_of (server_uidls items []) u = Some n
                    \<longrightarrow> PopDele u n \<in> set evs)))"
proof -
  have rd: "retention_days cfg = window" using assms(3) by (simp add: retention_days_def)
  have a: "window = 0 \<longrightarrow> e = None \<and> db' = db \<and> evs = []"
  proof
    assume "window = 0"
    with assms(2) rd show "e = None \<and> db' = db \<and> evs = []"
      by (simp add: delete_old_mails_def)
  qed
  have b: "window \<noteq> 0
            \<and> \<not> (abs window \<le> 999999999 \<and> datetime_min \<le> c \<and> c \<le> datetime_max)
          \<longrightarrow> e = Some OverflowError \<and> db' = db \<and> evs = []"
  proof (intro impI, elim conjE)
    assume h: "window \<noteq> 0"
      "\<not> (abs window \<le> 999999999 \<and> datetime_min \<le> c \<and> c \<le> datetime_max)"
    from h(2) assms(4) have "cutoff_date_of (now w) (retention_days cfg) = Inl OverflowError"
      unfolding rd cutoff_date_of_eq by simp
    from sweep_raises[OF assms(2) _ this] h(1) rd
    show "e = Some OverflowError \<and> db' = db \<and> evs = []" by simp
  qed
  have d: "window \<noteq> 0 \<and> abs window \<le> 999999999 \<and> datetime_min \<le> c \<and> c \<le> datetime_max
          \<longrightarrow> e = None
            \<and> (\<forall>u r. (u, r) \<in> set db \<and> \<not> (forward_success r \<and> forwarded_at r < c)
                  \<longrightarrow> (u, r) \<in> set db' \<and> (\<forall>n. PopDele u n \<notin> set evs))
            \<and> (SweepError \<notin> set evs \<longrightarrow>
                  db' = filter (\<lambda>kr. \<not> (forward_success (snd kr) \<and> forwarded_at (snd kr) < c)) db
                \<and> (\<forall>items u r n. uidl_list (sweep_pop w) = Some items \<and> (u, r) \<in> set db
                      \<and> forward_success r \<and> forwarded_at r < c
                      \<and> map_of (server_uidls items []) u = Some n
                    \<longrightarrow> PopDele u n \<in> set evs))"
  proof (intro impI, elim conjE)
    assume h: "window \<noteq> 0" "abs window \<le> 999999999" "datetime_min \<le> c" "c \<le> datetime_max"
    from h(2,3,4) assms(4) have cd: "cutoff_date_of (now w) (retention_days cfg) = Inr c"
      unfolding rd cutoff_date_of_eq by simp
    from h(1) rd have nz: "retention_days cfg \<noteq> 0" by simp
    note e = sweep_returns[OF assms(2) cd]
    have u: "\<forall>u r. (u, r) \<in> set db \<and> \<not> (forward_success r \<and> forwarded_at r < c)
                  \<longrightarrow> (u, r) \<in> set db' \<and> (\<forall>n. PopDele u n \<notin> set evs)"
    proof (intro allI impI, elim conjE)
      fix u r
      assume g: "(u, r) \<in> set db" "\<not> (forward_success r \<and> forwarded_at r < c)"
      from g(2) cd have "\<forall>c'. cutoff_date_of (now w) (retention_days cfg) = Inr c'
           \<longrightarrow> \<not> (forward_success r \<and> forwarded_at r < c')" by simp
      from sweep_unselected[OF assms(1,2) g(1) this]
      show "(u, r) \<in> set db' \<and> (\<forall>n. PopDele u n \<notin> set evs)" .
    qed
    have s: "SweepError \<notin> set evs \<longrightarrow>
                  db' = filter (\<lambda>kr. \<not> (forward_success (snd kr) \<and> forwarded_at (snd kr) < c)) db
                \<and> (\<forall>items u r n. uidl_list (sweep_pop w) = Some items \<and> (u, r) \<in> set db
                      \<and> forward_success r \<and> forwarded_at r < c
                      \<and> map_of (server_uidls items []) u = Some n
                    \<longrightarrow> PopDele u n \<in> set evs)"
    proof
      assume "SweepError \<notin> set evs"
      from sweep_completed[OF assms(1,2) nz cd this]
      show "db' = filter (\<lambda>kr. \<not> (forward_success (snd kr) \<and> forwarded_at (snd kr) < c)) db
                \<and> (\<forall>items u r n. uidl_list (sweep_pop w) = Some items \<and> (u, r) \<in> set db
                      \<and> forward_success r \<and> forwarded_at r < c
                      \<and> map_of (server_uidls items []) u = Some n
                    \<longrightarrow> PopDele u n \<in> set evs)" .
    qed
    from e u s show "e = None
            \<and> (\<forall>u r. (u, r) \<in> set db \<and> \<not> (forward_success r \<and> forwarded_at r < c)
                  \<longrightarrow> (u, r) \<in> set db' \<and> (\<forall>n. PopDele u n \<notin> set evs))
            \<and> (SweepError \<notin> set evs \<longrightarrow>
                  db' = filter (\<lambda>kr. \<not> (forward_success (snd kr) \<and> forwarded_at (snd kr) < c)) db
                \<and> (\<forall>items u r n. uidl_list (sweep_pop w) = Some items \<and> (u, r) \<in> set db
                      \<and> forward_success r \<and> forwarded_at r < c
                      \<and> map_of (server_uidls items []) u = Some n
                    \<longrightarrow> PopDele u n \<in> set evs))" by (intro conjI)
  qed
  from a b d show ?thesis by (intro conjI)
qed

text \<open>
  Forty days after 1970-01-01 with the default window of thirty days: the old forwarded
  row goes; the young forwarded row and the old failed row stay. With a window of 0 on
  the same ledger nothing happens.
\<close>

theorem retention_sweep_witness:
  "distinct (map fst sweep_ledger)
   \<and> mail_retention_days (retention_config None) = None
   \<and> now sweep_world - 30 * 86400000000 = 864000000000
   \<and> SweepError \<notin> set (snd (snd (delete_old_mails (retention_config None) sweep_world sweep_ledger)))
   \<and> (''u3'', \<lparr>forwarded_at = 0, from_addr = ''a@test.jp'', subject = ''old failed'',
               forward_success = False\<rparr>)
       \<in> set (fst (snd (delete_old_mails (retention_config None) sweep_world sweep_ledger)))
   \<and> fst (snd (delete_old_mails (retention_config None) sweep_world sweep_ledger))
       = filter (\<lambda>kr. \<not> (forward_success (snd kr) \<and> forwarded_at (snd kr) < 864000000000))
           sweep_ledger
   \<and> mail_retention_days (retention_config (Some 0)) = Some 0
   \<and> delete_old_mails (retention_config (Some 0)) sweep_world sweep_ledger
       = (None, sweep_ledger, [])"
proof -
  let ?X = "delete_old_mails (retention_config None) sweep_world sweep_ledger"
  let ?Z = "delete_old_mails (retention_config (Some 0)) sweep_world sweep_ledger"
  let ?r3 = "\<lparr>forwarded_at = 0, from_addr = ''a@test.jp'', subject = ''old failed'',
               forward_success = False\<rparr>"
  have h1: "distinct (map fst sweep_ledger)" by (simp add: sweep_ledger_def)
  have h2: "?X = (fst ?X, fst (snd ?X), snd (snd ?X))" by simp
  have m: "mail_retention_days (retention_config None) = None"
    by (simp add: retention_config_def)
  have h3: "(30::int) = (case mail_retention_days (retention_config None) of
              None \<Rightarrow> 30 | Some d \<Rightarrow> d)"
    by (simp add: m)
  have cut: "now sweep_world - 30 * 86400000000 = 864000000000"
    by (simp add: sweep_world_def)
  have h4: "(864000000000::int) = now sweep_world - 30 * 86400000000"
    by (rule cut[symmetric])
  have rep: "(30::int) \<noteq> 0 \<and> abs (30::int) \<le> 999999999 \<and> datetime_min \<le> 864000000000
      \<and> 864000000000 \<le> datetime_max"
    by (simp add: datetime_min_def datetime_max_def)
  have ns: "SweepError \<notin> set (snd (snd ?X))" by (simp add: sweep_run)
  have m3: "(''u3'', ?r3) \<in> set sweep_ledger" by (simp add: sweep_ledger_def)
  have n3: "\<not> (forward_success ?r3 \<and> forwarded_at ?r3 < 864000000000)" by simp
  note t = retention_sweep[OF h1 h2 h3 h4]
  from t rep m3 n3 have a: "(''u3'', ?r3) \<in> set (fst (snd ?X))" by blast
  from t rep ns have b: "fst (snd ?X) = filter (\<lambda>kr. \<not> (forward_success (snd kr)
        \<and> forwarded_at (snd kr) < 864000000000)) sweep_ledger" by blast
  have z2: "?Z = (fst ?Z, fst (snd ?Z), snd (snd ?Z))" by simp
  have mz: "mail_retention_days (retention_config (Some 0)) = Some 0"
    by (simp add: retention_config_def)
  have z3: "(0::int) = (case mail_retention_days (retention_config (Some 0)) of
              None \<Rightarrow> 30 | Some d \<Rightarrow> d)"
    by (simp add: mz)
  have z4: "now sweep_world = now sweep_world - 0 * 86400000000" by simp
  note tz = retention_sweep[OF h1 z2 z3 z4]
  from tz have "fst ?Z = None \<and> fst (snd ?Z) = sweep_ledger \<and> snd (snd ?Z) = []" by blast
  then have c: "?Z = (None, sweep_ledger, [])" by (metis prod.collapse)
  from h1 m cut ns a b mz c show ?thesis by (intro conjI)
qed

text \<open>
  A window of minus three million days: now minus the window lies beyond the year 9999,
  both forwarded rows are earlier than it, and the sweep raises \<^verbatim>\<open>OverflowError\<close>
  without selecting or deleting anything.
\<close>

theorem retention_window_out_of_range:
  "mail_retention_days (retention_config (Some (- 3000000))) = Some (- 3000000)
   \<and> mails_to_delete (now sweep_world - (- 3000000) * 86400000000) sweep_ledger
       = [(''u1'', \<lparr>forwarded_at = 0, from_addr = ''a@test.jp'', subject = ''old'',
                     forward_success = True\<rparr>),
          (''u2'', \<lparr>forwarded_at = 3456000000000, from_addr = ''a@test.jp'',
                     subject = ''young'', forward_success = True\<rparr>)]
   \<and> delete_old_mails (retention_config (Some (- 3000000))) sweep_world sweep_ledger
       = (Some OverflowError, sweep_ledger, [])"
  by code_simp

section \<open>The one-shot driver on two new messages\<close>

text \<open>
  C8. The server lists \<open>u1\<close> and \<open>u2\<close>, the ledger is empty, no start date is set and
  the relay accepts every message. \<^verbatim>\<open>process_once\<close> retrieves both messages, and then
  its loop unpacks five names from the first four-element tuple: \<^verbatim>\<open>ValueError\<close>.
  No message is submitted, the ledger stays empty, no summary is reported. The result is
  the same under either reading.
\<close>

theorem process_once_two_new_mails:
  "process_once rd plain_config two_mail_world [] =
     ([], [PopConnect, PopRetr ''u1'' 1, PopRetr ''u2'' 2, PopQuit], Inl ValueError)"
proof (cases rd)
  case Statements_only
  show ?thesis unfolding Statements_only by (rule two_new_statements)
next
  case Guarded
  show ?thesis unfolding Guarded by (rule two_new_guarded)
qed

section \<open>A failed sweep session\<close>

text \<open>
  C9. If \<^verbatim>\<open>create_pop3_connection\<close>, the authentication or \<^verbatim>\<open>uidl()\<close> raises in the
  sweep, the ledger is returned as it is and no \<^verbatim>\<open>dele\<close> was issued. A sweep that
  changes the ledger connected, authenticated and obtained the listing, and every
  \<^verbatim>\<open>dele\<close> it issued succeeded.
\<close>

theorem sweep_session_failure:
  assumes "delete_old_mails cfg w db = (e, db', evs)"
  shows "(\<not> connect_ok (sweep_pop w) \<or> \<not> auth_ok (sweep_pop w) \<or> uidl_list (sweep_pop w) = None
            \<longrightarrow> db' = db \<and> (evs = [] \<or> evs = [PopConnect, SweepError])
              \<and> (\<forall>u n. PopDele u n \<notin> set evs))
       \<and> (db' \<noteq> db \<longrightarrow> connect_ok (sweep_pop w) \<and> auth_ok (sweep_pop w)
              \<and> (\<exists>items. uidl_list (sweep_pop w) = Some items)
              \<and> (\<forall>u n. PopDele u n \<in> set evs \<longrightarrow> dele_ok (sweep_pop w) n))"
  using assms
proof (cases rule: delete_old_mails_cases)
  case off
  then show ?thesis by simp
next
  case (overflow err)
  then show ?thesis by simp
next
  case (none_due c)
  then show ?thesis by simp
next
  case (sweep c)
  let ?sel = "mails_to_delete c db"
  note f = sweep_session_facts[OF sweep(5)]
  from f have f1: "db' = db \<or> connect_ok (sweep_pop w) \<and> auth_ok (sweep_pop w)
              \<and> (\<exists>items. uidl_list (sweep_pop w) = Some items)
              \<and> (\<forall>u n. PopDele u n \<in> set evs \<longrightarrow> dele_ok (sweep_pop w) n)
              \<and> db' = filter (\<lambda>kr. fst kr \<notin> fst ` set ?sel) db" by blast
  from f have f5: "\<not> connect_ok (sweep_pop w) \<or> \<not> auth_ok (sweep_pop w)
        \<or> uidl_list (sweep_pop w) = None
              \<longrightarrow> db' = db \<and> evs = [PopConnect, SweepError]" by blast
  have a: "\<not> connect_ok (sweep_pop w) \<or> \<not> auth_ok (sweep_pop w) \<or> uidl_list (sweep_pop w) = None
            \<longrightarrow> db' = db \<and> (evs = [] \<or> evs = [PopConnect, SweepError])
              \<and> (\<forall>u n. PopDele u n \<notin> set evs)"
  proof
    assume "\<not> connect_ok (sweep_pop w) \<or> \<not> auth_ok (sweep_pop w) \<or> uidl_list (sweep_pop w) = None"
    with f5 have "db' = db \<and> evs = [PopConnect, SweepError]" by blast
    then show "db' = db \<and> (evs = [] \<or> evs = [PopConnect, SweepError])
              \<and> (\<forall>u n. PopDele u n \<notin> set evs)" by simp
  qed
  have b: "db' \<noteq> db \<longrightarrow> connect_ok (sweep_pop w) \<and> auth_ok (sweep_pop w)
              \<and> (\<exists>items. uidl_list (sweep_pop w) = Some items)
              \<and> (\<forall>u n. PopDele u n \<in> set evs \<longrightarrow> dele_ok (sweep_pop w) n)"
    using f1 by blast
  from a b show ?thesis by (intro conjI)
qed

text \<open>
  The server cannot be reached while one row is due for deletion: the row stays.
\<close>

theorem sweep_session_failure_witness:
  "\<not> connect_ok (sweep_pop unreachable_world)
   \<and> mails_to_delete 864000000000 sweep_ledger
       = [(''u1'', \<lparr>forwarded_at = 0, from_addr = ''a@test.jp'', subject = ''old'',
                     forward_success = True\<rparr>)]
   \<and> fst (snd (delete_old_mails plain_config unreachable_world sweep_ledger)) = sweep_ledger
   \<and> PopDele ''u1'' 1
       \<notin> set (snd (snd (delete_old_mails plain_config unreachable_world sweep_ledger)))"
proof -
  let ?X = "delete_old_mails plain_config unreachable_world sweep_ledger"
  have h: "?X = (fst ?X, fst (snd ?X), snd (snd ?X))" by simp
  have c: "\<not> connect_ok (sweep_pop unreachable_world)"
    by (simp add: unreachable_world_def unreachable_pop_def)
  have s: "mails_to_delete 864000000000 sweep_ledger
       = [(''u1'', \<lparr>forwarded_at = 0, from_addr = ''a@test.jp'', subject = ''old'',
                     forward_success = True\<rparr>)]"
    by (simp add: mails_to_delete_def sweep_ledger_def)
  note t = sweep_session_failure[OF h]
  from t c have a: "fst (snd ?X) = sweep_ledger" by blast
  from t c have b: "PopDele ''u1'' 1 \<notin> set (snd (snd ?X))" by blast
  from c s a b show ?thesis by (intro conjI)
qed

section \<open>A negative retention window\<close>

text \<open>
  C10. \<^verbatim>\<open>mail_retention_days\<close> is a negative number \<open>d\<close> of days for which \<open>c\<close>, now
  minus \<open>d\<close> days, is a \<^verbatim>\<open>datetime\<close>. The sweep is not disabled. Its cutoff \<open>c\<close> lies
  after now, so every row with \<open>forward_success\<close> is selected (no row carries a
  \<^verbatim>\<open>forwarded_at\<close> later than the clock that wrote it); a session is opened as soon as
  there is such a row, and a sweep that logs no error removes all of them from the
  ledger and deletes from the mailbox those the server still lists.
\<close>

theorem negative_retention:
  assumes "mail_retention_days cfg = Some d" and "d < 0"
    and "c = now w - d * 86400000000"
    and "abs d \<le> 999999999" and "datetime_min \<le> c" and "c \<le> datetime_max"
    and "distinct (map fst db)"
    and "\<forall>kr \<in> set db. forwarded_at (snd kr) \<le> now w"
    and "delete_old_mails cfg w db = (e, db', evs)"
  shows "now w < c \<and> e = None
       \<and> mails_to_delete c db = filter (\<lambda>kr. forward_success (snd kr)) db
       \<and> (filter (\<lambda>kr. forward_success (snd kr)) db \<noteq> [] \<longrightarrow> PopConnect \<in> set evs)
       \<and> (SweepError \<notin> set evs \<longrightarrow>
            db' = filter (\<lambda>kr. \<not> forward_success (snd kr)) db
          \<and> (\<forall>items u r n. uidl_list (sweep_pop w) = Some items \<and> (u, r) \<in> set db
                \<and> forward_success r \<and> map_of (server_uidls items []) u = Some n
              \<longrightarrow> PopDele u n \<in> set evs))"
proof -
  have rd: "retention_days cfg = d" using assms(1) by (simp add: retention_days_def)
  have nz: "retention_days cfg \<noteq> 0" using assms(2) rd by simp
  have cd: "cutoff_date_of (now w) (retention_days cfg) = Inr c"
    unfolding rd cutoff_date_of_eq using assms(3,4,5,6) by simp
  have fut: "now w < c" using assms(2,3) by simp
  note en = sweep_returns[OF assms(9) cd]
  have old: "\<forall>kr \<in> set db. forwarded_at (snd kr) < c" using assms(8) fut by fastforce
  have eqP: "\<forall>kr \<in> set db. (forward_success (snd kr) \<and> forwarded_at (snd kr) < c)
                = forward_success (snd kr)"
    using old by simp
  have sel: "mails_to_delete c db = filter (\<lambda>kr. forward_success (snd kr)) db"
    unfolding mails_to_delete_def using eqP by (intro filter_cong refl) simp
  have pc: "filter (\<lambda>kr. forward_success (snd kr)) db \<noteq> [] \<longrightarrow> PopConnect \<in> set evs"
  proof
    assume ne: "filter (\<lambda>kr. forward_success (snd kr)) db \<noteq> []"
    from assms(9) show "PopConnect \<in> set evs"
    proof (cases rule: delete_old_mails_cases)
      case off
      with nz show ?thesis by simp
    next
      case (overflow err)
      with cd show ?thesis by simp
    next
      case (none_due c')
      from none_due(2) cd have "c' = c" by simp
      with none_due(3) sel ne show ?thesis by simp
    next
      case (sweep c')
      from sweep_session_facts[OF sweep(5)] show ?thesis by blast
    qed
  qed
  have dd: "SweepError \<notin> set evs \<longrightarrow>
            db' = filter (\<lambda>kr. \<not> forward_success (snd kr)) db
          \<and> (\<forall>items u r n. uidl_list (sweep_pop w) = Some items \<and> (u, r) \<in> set db
                \<and> forward_success r \<and> map_of (server_uidls items []) u = Some n
              \<longrightarrow> PopDele u n \<in> set evs)"
  proof
    assume ns: "SweepError \<notin> set evs"
    note sc = sweep_completed[OF assms(7,9) nz cd ns]
    have "filter (\<lambda>kr. \<not> (forward_success (snd kr) \<and> forwarded_at (snd kr) < c)) db
        = filter (\<lambda>kr. \<not> forward_success (snd kr)) db"
      using eqP by (intro filter_cong refl) simp
    with sc have a: "db' = filter (\<lambda>kr. \<not> forward_success (snd kr)) db" by simp
    have b: "\<forall>items u r n. uidl_list (sweep_pop w) = Some items \<and> (u, r) \<in> set db
                \<and> forward_success r \<and> map_of (server_uidls items []) u = Some n
              \<longrightarrow> PopDele u n \<in> set evs"
    proof (intro allI impI, elim conjE)
      fix items u r n
      assume h: "uidl_list (sweep_pop w) = Some items" "(u, r) \<in> set db" "forward_success r"
        "map_of (server_uidls items []) u = Some n"
      from old h(2) have "forwarded_at r < c" by fastforce
      with sc h show "PopDele u n \<in> set evs" by blast
    qed
    from a b show "db' = filter (\<lambda>kr. \<not> forward_success (snd kr)) db
          \<and> (\<forall>items u r n. uidl_list (sweep_pop w) = Some items \<and> (u, r) \<in> set db
                \<and> forward_success r \<and> map_of (server_uidls items []) u = Some n
              \<longrightarrow> PopDele u n \<in> set evs)" by (intro conjI)
  qed
  from fut en sel pc dd show ?thesis by (intro conjI)
qed

text \<open>
  A window of minus one day and a row forwarded at this very instant: the row is removed
  and its message deleted from the mailbox.
\<close>

theorem negative_retention_witness:
  "mail_retention_days (retention_config (Some (- 1))) = Some (- 1)
   \<and> now sweep_world - (- 1) * 86400000000 = 3542400000000
   \<and> now sweep_world = 3456000000000
   \<and> fst (snd (delete_old_mails (retention_config (Some (- 1))) sweep_world fresh_ledger))
       = filter (\<lambda>kr. \<not> forward_success (snd kr)) fresh_ledger
   \<and> PopDele ''u1'' 1
       \<in> set (snd (snd (delete_old_mails (retention_config (Some (- 1))) sweep_world fresh_ledger)))"
proof -
  let ?X = "delete_old_mails (retention_config (Some (- 1))) sweep_world fresh_ledger"
  let ?r1 = "\<lparr>forwarded_at = 3456000000000, from_addr = ''a@test.jp'', subject = ''fresh'',
               forward_success = True\<rparr>"
  have h1: "mail_retention_days (retention_config (Some (- 1))) = Some (- 1)"
    by (simp add: retention_config_def)
  have h2: "(- 1 :: int) < 0" by simp
  have nw: "now sweep_world = 3456000000000" by (simp add: sweep_world_def)
  have cut: "now sweep_world - (- 1) * 86400000000 = 3542400000000"
    by (simp add: nw)
  have h3: "(3542400000000::int) = now sweep_world - (- 1) * 86400000000"
    by (rule cut[symmetric])
  have h4: "abs (- 1 :: int) \<le> 999999999" by simp
  have h5: "datetime_min \<le> 3542400000000" by (simp add: datetime_min_def)
  have h6: "3542400000000 \<le> datetime_max" by (simp add: datetime_max_def)
  have h7: "distinct (map fst fresh_ledger)" by (simp add: fresh_ledger_def)
  have h8: "\<forall>kr \<in> set fresh_ledger. forwarded_at (snd kr) \<le> now sweep_world"
    by (simp add: fresh_ledger_def sweep_world_def)
  have h9: "?X = (fst ?X, fst (snd ?X), snd (snd ?X))" by simp
  have ns: "SweepError \<notin> set (snd (snd ?X))" by (simp add: negative_run)
  have ul: "uidl_list (sweep_pop sweep_world) = Some [(1, ''u1''), (2, ''u2'')]"
    by (simp add: sweep_world_def two_mail_pop_def)
  have m1: "(''u1'', ?r1) \<in> set fresh_ledger" "forward_success ?r1"
    by (simp_all add: fresh_ledger_def)
  have mo: "map_of (server_uidls [(1, ''u1''), (2, ''u2'')] []) ''u1'' = Some 1" by simp
  note t = negative_retention[OF h1 h2 h3 h4 h5 h6 h7 h8 h9]
  from t ns have a: "fst (snd ?X) = filter (\<lambda>kr. \<not> forward_success (snd kr)) fresh_ledger"
    by blast
  from t ns have "\<forall>items u r n. uidl_list (sweep_pop sweep_world) = Some items
        \<and> (u, r) \<in> set fresh_ledger \<and> forward_success r
        \<and> map_of (server_uidls items []) u = Some n \<longrightarrow> PopDele u n \<in> set (snd (snd ?X))"
    by blast
  with ul m1 mo have b: "PopDele ''u1'' 1 \<in> set (snd (snd ?X))" by blast
  from h1 cut nw a b show ?thesis by (intro conjI)
qed

text \<open>
  A window of minus 1000000000 days: \<^verbatim>\<open>timedelta\<close> raises \<^verbatim>\<open>OverflowError\<close>. Nothing
  is selected although the ledger holds a forwarded row, and the cycle of the daemon
  ends there, without a reconciliation.
\<close>

theorem negative_window_out_of_range:
  "\<forall>rd. mail_retention_days (retention_config (Some (- 1000000000))) = Some (- 1000000000)
   \<and> filter (\<lambda>kr. forward_success (snd kr)) fresh_ledger
       = [(''u1'', \<lparr>forwarded_at = 3456000000000, from_addr = ''a@test.jp'',
                     subject = ''fresh'', forward_success = True\<rparr>)]
   \<and> delete_old_mails (retention_config (Some (- 1000000000))) sweep_world fresh_ledger
       = (Some OverflowError, fresh_ledger, [])
   \<and> daemon_cycle rd (retention_config (Some (- 1000000000))) sweep_world fresh_ledger
       = (fresh_ledger, [CycleError])"
proof
  fix rd
  show "mail_retention_days (retention_config (Some (- 1000000000))) = Some (- 1000000000)
   \<and> filter (\<lambda>kr. forward_success (snd kr)) fresh_ledger
       = [(''u1'', \<lparr>forwarded_at = 3456000000000, from_addr = ''a@test.jp'',
                     subject = ''fresh'', forward_success = True\<rparr>)]
   \<and> delete_old_mails (retention_config (Some (- 1000000000))) sweep_world fresh_ledger
       = (Some OverflowError, fresh_ledger, [])
   \<and> daemon_cycle rd (retention_config (Some (- 1000000000))) sweep_world fresh_ledger
       = (fresh_ledger, [CycleError])"
  proof (cases rd)
    case Statements_only
    show ?thesis unfolding Statements_only by (rule negative_overflow_statements)
  next
    case Guarded
    show ?thesis unfolding Guarded by (rule negative_overflow_guarded)
  qed
qed

end
